theory Spec2Isabelle
  imports Complex_Main
begin

section \<open>Requests, responses and the request loop\<close>

text \<open>
  Every limiter of the repository is an Express middleware \<open>(req, res, next)\<close> that reads
  \<open>req.ip\<close> and \<open>Date.now()\<close>, consults a module-level \<open>Map\<close> keyed by the address and
  either calls \<open>next()\<close> or answers \<open>res.status(429).json({error, retryAfter})\<close>.
  The model passes the address, the clock reading (integer milliseconds) and the map
  explicitly and returns the updated map together with the response. The module-level
  constants (window length, request limit, capacity, rates) are parameters of the model;
  the values the source gives them are recorded as constants of their own below.
\<close>

type_synonym ip = string

datatype response =
    Next
  | Reject int
  | Defer "int option"

text \<open>
  \<open>Next\<close> is the call \<open>next()\<close>; \<open>Reject r\<close> is the status 429 with \<open>retryAfter = r\<close> in its
  body; \<open>Defer d\<close> is \<open>setTimeout(callback, d)\<close> of the throttle middleware, where \<open>None\<close>
  stands for the delay \<open>NaN\<close>.
\<close>

text \<open>
  The server handles one request after the other: \<open>serve f nows s\<close> runs the middleware
  \<open>f\<close> on requests arriving at the clock readings \<open>nows\<close>, starting from the store \<open>s\<close>, and
  collects the responses in order.
\<close>

fun serve :: "(int \<Rightarrow> 's \<Rightarrow> 's \<times> response) \<Rightarrow> int list \<Rightarrow> 's \<Rightarrow> 's \<times> response list" where
  "serve f [] s = (s, [])"
| "serve f (now # nows) s =
     (case f now s of (s', r) \<Rightarrow>
        (case serve f nows s' of (s'', rs) \<Rightarrow> (s'', r # rs)))"

text \<open>The clock readings of the requests that were answered with \<open>next()\<close>.\<close>

fun admitted :: "int list \<Rightarrow> response list \<Rightarrow> int list" where
  "admitted (t # ts) (r # rs) = (if r = Next then t # admitted ts rs else admitted ts rs)"
| "admitted _ _ = []"

text \<open>\<open>Math.ceil(x / 1000)\<close> for an integer number of milliseconds \<open>x\<close>.\<close>

definition ceil_seconds :: "int \<Rightarrow> int" where
  "ceil_seconds x = \<lceil>real_of_int x / 1000\<rceil>"

section \<open>Sliding window log\<close>

text \<open>
  \<open>slidingWindowRateLimiter\<close>: the first request of an address stores \<open>[now]\<close> and passes
  without looking at the limit; later requests filter the stored timestamps, push \<open>now\<close>,
  store the list and only then compare its length with the limit. \<open>updatedTimeStamps[0]\<close>
  is read from a list that ends with \<open>now\<close>, so it is never out of range.
\<close>

definition slidingWindowRateLimiter ::
  "int \<Rightarrow> int \<Rightarrow> ip \<Rightarrow> int \<Rightarrow> (ip \<rightharpoonup> int list) \<Rightarrow> (ip \<rightharpoonup> int list) \<times> response" where
  "slidingWindowRateLimiter windowMs maxRequests ip now requestLogs =
     (case requestLogs ip of
        None \<Rightarrow> (requestLogs(ip \<mapsto> [now]), Next)
      | Some timeStamps \<Rightarrow>
          (let updatedTimeStamps = filter (\<lambda>ts. now - ts \<le> windowMs) timeStamps @ [now];
               requestLogs' = requestLogs(ip \<mapsto> updatedTimeStamps)
           in if int (length updatedTimeStamps) > maxRequests
              then (requestLogs', Reject (ceil_seconds (windowMs - (now - hd updatedTimeStamps))))
              else (requestLogs', Next)))"

text \<open>The constants of the source file: \<open>15 * 50 * 1000\<close> and \<open>100\<close>.\<close>

definition slidingLog_windowMs :: int where
  "slidingLog_windowMs = 15 * 50 * 1000"

definition slidingLog_maxRequests :: int where
  "slidingLog_maxRequests = 100"

text \<open>
  The per-call contract in the words of the specification: prune the key's sequence (an
  absent one is empty) to the entries with \<open>now - ts \<le> windowDuration\<close>, append \<open>now\<close>,
  reject when the length exceeds the limit and allow otherwise.
\<close>

definition slidingLog_contract ::
  "int \<Rightarrow> int \<Rightarrow> ip \<Rightarrow> int \<Rightarrow> (ip \<rightharpoonup> int list) \<Rightarrow> (ip \<rightharpoonup> int list) \<times> response" where
  "slidingLog_contract windowDuration maxRequests key now store =
     (let stored = (case store key of None \<Rightarrow> [] | Some l \<Rightarrow> l);
          pruned = filter (\<lambda>ts. \<not> now - ts > windowDuration) stored;
          updated = pruned @ [now];
          oldestRetained = hd updated
      in (store(key \<mapsto> updated),
          if int (length updated) > maxRequests
          then Reject \<lceil>real_of_int (windowDuration - (now - oldestRetained)) / 1000\<rceil>
          else Next))"

section \<open>Fixed window counter\<close>

record fw_entry =
  count :: int
  windowStart :: int

text \<open>
  \<open>fixedWindowRateLimiter\<close>: the rejecting branch writes nothing; the other three
  branches store a new or an incremented entry.
\<close>

definition fixedWindowRateLimiter ::
  "int \<Rightarrow> int \<Rightarrow> ip \<Rightarrow> int \<Rightarrow> (ip \<rightharpoonup> fw_entry) \<Rightarrow> (ip \<rightharpoonup> fw_entry) \<times> response" where
  "fixedWindowRateLimiter windowTime maxRequests ip now ipRequestCounts =
     (case ipRequestCounts ip of
        None \<Rightarrow> (ipRequestCounts(ip \<mapsto> \<lparr>count = 1, windowStart = now\<rparr>), Next)
      | Some entry \<Rightarrow>
          if now - windowStart entry < windowTime then
            if count entry < maxRequests
            then (ipRequestCounts(ip \<mapsto> entry\<lparr>count := count entry + 1\<rparr>), Next)
            else (ipRequestCounts, Reject (ceil_seconds (windowTime - (now - windowStart entry))))
          else (ipRequestCounts(ip \<mapsto> \<lparr>count = 1, windowStart = now\<rparr>), Next))"

text \<open>The constants of the source file: \<open>15 * 60 * 1000\<close> and \<open>100\<close>.\<close>

definition fixedWindow_windowTime :: int where
  "fixedWindow_windowTime = 15 * 60 * 1000"

definition fixedWindow_maxRequests :: int where
  "fixedWindow_maxRequests = 100"

section \<open>Token bucket\<close>

record tb_bucket =
  tokens :: int
  lastRefill :: int

text \<open>
  The refill step of \<open>tokenBucketRateLimiter\<close> (the statements between reading the bucket
  and testing \<open>bucket.tokens > 0\<close>): \<open>timeElapsed\<close> is a fraction of seconds,
  \<open>tokensToAdd\<close> its floor after scaling, and \<open>lastRefill\<close> moves only when a token was
  added. The arithmetic is the exact one; for the source's \<open>refillRate = 1\<close> and clock
  readings below \<open>2^53\<close> the double-precision result is the same.
\<close>

definition tokensToAdd :: "real \<Rightarrow> int \<Rightarrow> tb_bucket \<Rightarrow> int" where
  "tokensToAdd refillRate now bucket =
     (let timeElapsed = real_of_int (now - lastRefill bucket) / 1000
      in \<lfloor>timeElapsed * refillRate\<rfloor>)"

definition refill :: "int \<Rightarrow> real \<Rightarrow> int \<Rightarrow> tb_bucket \<Rightarrow> tb_bucket" where
  "refill bucketCapacity refillRate now bucket =
     \<lparr>tokens = min bucketCapacity (tokens bucket + tokensToAdd refillRate now bucket),
      lastRefill = (if tokensToAdd refillRate now bucket > 0 then now else lastRefill bucket)\<rparr>"

definition tokenBucketRateLimiter ::
  "int \<Rightarrow> real \<Rightarrow> ip \<Rightarrow> int \<Rightarrow> (ip \<rightharpoonup> tb_bucket) \<Rightarrow> (ip \<rightharpoonup> tb_bucket) \<times> response" where
  "tokenBucketRateLimiter bucketCapacity refillRate ip now tokenBuckets =
     (case tokenBuckets ip of
        None \<Rightarrow> (tokenBuckets(ip \<mapsto> \<lparr>tokens = bucketCapacity - 1, lastRefill = now\<rparr>), Next)
      | Some bucket \<Rightarrow>
          (let bucket' = refill bucketCapacity refillRate now bucket
           in if tokens bucket' > 0
              then (tokenBuckets(ip \<mapsto> bucket'\<lparr>tokens := tokens bucket' - 1\<rparr>), Next)
              else (tokenBuckets(ip \<mapsto> bucket'), Reject 1)))"

text \<open>The constants of the source file.\<close>

definition tokenBucket_bucketCapacity :: int where
  "tokenBucket_bucketCapacity = 10"

definition tokenBucket_refillRate :: real where
  "tokenBucket_refillRate = 1"

section \<open>Leaky bucket\<close>

record lb_bucket =
  lastLeakTime :: int
  queue :: int

text \<open>
  The leak step of \<open>leakyBucketRateLimiter\<close>: \<open>Math.floor(elapsed / leakRate)\<close> is the
  integer quotient rounded down (for \<open>leakRate \<noteq> 0\<close>; the source has \<open>1000\<close>).
\<close>

definition leaked :: "int \<Rightarrow> int \<Rightarrow> lb_bucket \<Rightarrow> int" where
  "leaked leakRate now bucket = (let elapsed = now - lastLeakTime bucket in elapsed div leakRate)"

definition leak :: "int \<Rightarrow> int \<Rightarrow> lb_bucket \<Rightarrow> lb_bucket" where
  "leak leakRate now bucket =
     \<lparr>lastLeakTime = (if leaked leakRate now bucket > 0 then now else lastLeakTime bucket),
      queue = max 0 (queue bucket - leaked leakRate now bucket)\<rparr>"

definition leakyBucketRateLimiter ::
  "int \<Rightarrow> int \<Rightarrow> ip \<Rightarrow> int \<Rightarrow> (ip \<rightharpoonup> lb_bucket) \<Rightarrow> (ip \<rightharpoonup> lb_bucket) \<times> response" where
  "leakyBucketRateLimiter queueCapacity leakRate ip now buckets =
     (case buckets ip of
        None \<Rightarrow> (buckets(ip \<mapsto> \<lparr>lastLeakTime = now, queue = 1\<rparr>), Next)
      | Some bucket \<Rightarrow>
          (let bucket' = leak leakRate now bucket
           in if queue bucket' < queueCapacity
              then (buckets(ip \<mapsto> bucket'\<lparr>queue := queue bucket' + 1\<rparr>), Next)
              else (buckets(ip \<mapsto> bucket'), Reject (ceil_seconds leakRate))))"

text \<open>The constants of the source file.\<close>

definition leakyBucket_queueCapacity :: int where
  "leakyBucket_queueCapacity = 10"

definition leakyBucket_leakRate :: int where
  "leakyBucket_leakRate = 1000"

section \<open>Double-precision numbers\<close>

text \<open>
  JavaScript numbers are IEEE 754 doubles: every arithmetic operation returns the double
  nearest to the exact result, a tie going to the even significand. \<open>toDouble x\<close> is that
  double for a real \<open>x\<close>: with \<open>e\<close> the exponent of \<open>x\<close> (\<open>2^e \<le> |x| < 2^(e+1)\<close>, not below
  \<open>-1022\<close>, where the subnormal numbers begin) the doubles around \<open>x\<close> are the multiples of
  \<open>2^(e-52)\<close>, and \<open>x\<close> goes to the nearest of them. Results of magnitude \<open>2^1024\<close> and more,
  which the machine turns into \<open>Infinity\<close>, are outside the model. Integers below \<open>2^53\<close> in
  magnitude are doubles, so integer arithmetic on clock readings and counts is exact.
\<close>

text \<open>The integer nearest to \<open>y\<close>, ties to the even one.\<close>

definition roundTiesToEven :: "real \<Rightarrow> int" where
  "roundTiesToEven y =
     (let f = \<lfloor>y\<rfloor>; r = y - of_int f
      in if r < 1 / 2 then f else if 1 / 2 < r then f + 1 else if even f then f else f + 1)"

text \<open>
  The exponent is found by a search from 0 (upwards when \<open>|x| \<ge> 1\<close>, downwards otherwise)
  over the exponent range of the doubles.
\<close>

fun exponentUp :: "nat \<Rightarrow> real \<Rightarrow> int \<Rightarrow> int" where
  "exponentUp 0 x e = e"
| "exponentUp (Suc fuel) x e = (if 2 powi (e + 1) \<le> x then exponentUp fuel x (e + 1) else e)"

fun exponentDown :: "nat \<Rightarrow> real \<Rightarrow> int \<Rightarrow> int" where
  "exponentDown 0 x e = e"
| "exponentDown (Suc fuel) x e = (if x < 2 powi e then exponentDown fuel x (e - 1) else e)"

definition exponentOf :: "real \<Rightarrow> int" where
  "exponentOf x = (if 1 \<le> \<bar>x\<bar> then exponentUp 1023 \<bar>x\<bar> 0 else exponentDown 1021 \<bar>x\<bar> (- 1))"

definition toDouble :: "real \<Rightarrow> real" where
  "toDouble x =
     (if x = 0 then 0
      else of_int (roundTiesToEven (x / 2 powi (exponentOf x - 52))) * 2 powi (exponentOf x - 52))"

section \<open>Sliding window counter\<close>

record window =
  timestamp :: int
  count_w :: int

record swc_entry =
  current :: window
  previous :: window

text \<open>
  The locals of \<open>slidingWindowCounterRateLimiter\<close> as functions of the clock reading:
  \<open>windowStart = Math.floor(now / windowSize) * windowSize\<close>, an integer, and
  \<open>weight = (now - windowStart) / windowSize\<close>, a double (for \<open>windowSize > 0\<close>; the source
  has \<open>60 * 1000\<close>).
\<close>

definition windowStartOf :: "int \<Rightarrow> int \<Rightarrow> int" where
  "windowStartOf windowSize now = (now div windowSize) * windowSize"

definition weightOf :: "int \<Rightarrow> int \<Rightarrow> real" where
  "weightOf windowSize now =
     (let timeIntoWindow = now - windowStartOf windowSize now
      in toDouble (real_of_int timeIntoWindow / real_of_int windowSize))"

text \<open>
  The update of an existing entry: a changed window start copies \<open>current\<close> into
  \<open>previous\<close>, whatever window it was counting, and restarts \<open>current\<close> at one; otherwise
  \<open>current.count\<close> is incremented.
\<close>

definition shiftWindows :: "int \<Rightarrow> int \<Rightarrow> swc_entry \<Rightarrow> swc_entry" where
  "shiftWindows windowSize now entry =
     (if timestamp (current entry) \<noteq> windowStartOf windowSize now
      then \<lparr>current = \<lparr>timestamp = windowStartOf windowSize now, count_w = 1\<rparr>,
            previous = current entry\<rparr>
      else entry\<lparr>current := (current entry)\<lparr>count_w := count_w (current entry) + 1\<rparr>\<rparr>)"

text \<open>
  The weighted sum \<open>totalCount = current.count * (1 - weight) + previous.count * weight\<close>,
  each of its four operations rounded to a double.
\<close>

definition totalCount :: "swc_entry \<Rightarrow> real \<Rightarrow> real" where
  "totalCount entry weight =
     toDouble
       (toDouble (real_of_int (count_w (current entry)) * toDouble (1 - weight))
        + toDouble (real_of_int (count_w (previous entry)) * weight))"

definition slidingWindowCounterRateLimiter ::
  "int \<Rightarrow> int \<Rightarrow> ip \<Rightarrow> int \<Rightarrow> (ip \<rightharpoonup> swc_entry) \<Rightarrow> (ip \<rightharpoonup> swc_entry) \<times> response" where
  "slidingWindowCounterRateLimiter windowSize maxRequests ip now buckets =
     (case buckets ip of
        None \<Rightarrow>
          (buckets(ip \<mapsto>
             \<lparr>current = \<lparr>timestamp = windowStartOf windowSize now, count_w = 1\<rparr>,
              previous = \<lparr>timestamp = windowStartOf windowSize now - windowSize, count_w = 0\<rparr>\<rparr>),
           Next)
      | Some entry \<Rightarrow>
          (let entry' = shiftWindows windowSize now entry;
               buckets' = buckets(ip \<mapsto> entry')
           in if totalCount entry' (weightOf windowSize now) > real_of_int maxRequests
              then (buckets', Reject (ceil_seconds windowSize))
              else (buckets', Next)))"

text \<open>The constants of the source file: \<open>60 * 1000\<close> and \<open>20\<close>.\<close>

definition slidingCounter_windowSize :: int where
  "slidingCounter_windowSize = 60 * 1000"

definition slidingCounter_maxRequests :: int where
  "slidingCounter_maxRequests = 20"

text \<open>
  The estimate a call at \<open>now\<close> computes for an address whose entry is \<open>entry\<close> when the call
  starts.
\<close>

definition estimateAt :: "int \<Rightarrow> int \<Rightarrow> swc_entry \<Rightarrow> real" where
  "estimateAt windowSize now entry =
     totalCount (shiftWindows windowSize now entry) (weightOf windowSize now)"

section \<open>Delayed-admission throttle\<close>

datatype js_error = TypeError

text \<open>
  \<open>throttleMiddleware\<close> up to the point where it either calls \<open>next()\<close> or hands its
  callback to \<open>setTimeout\<close>. \<open>timestamps[0]\<close> of an empty array is \<open>undefined\<close> and makes the
  delay \<open>NaN\<close>.
\<close>

definition throttleMiddleware ::
  "int \<Rightarrow> int \<Rightarrow> ip \<Rightarrow> int \<Rightarrow> (ip \<rightharpoonup> int list) \<Rightarrow> (ip \<rightharpoonup> int list) \<times> response" where
  "throttleMiddleware MAX_REQUESTS TIME_WINDOW ip currentTime IPMap =
     (let stored = (case IPMap ip of None \<Rightarrow> [] | Some l \<Rightarrow> l);
          timestamps = filter (\<lambda>ts. currentTime - ts < TIME_WINDOW) stored
      in if int (length timestamps) < MAX_REQUESTS
         then (IPMap(ip \<mapsto> timestamps @ [currentTime]), Next)
         else (IPMap(ip \<mapsto> timestamps),
               Defer (case timestamps of
                        [] \<Rightarrow> None
                      | oldest # _ \<Rightarrow> Some (TIME_WINDOW - (currentTime - oldest)))))"

text \<open>
  The callback given to \<open>setTimeout\<close>, run at the clock reading \<open>now\<close> on the map as it is
  then. \<open>IPMap.get(ip).filter\<close> on a missing entry would throw.
\<close>

definition throttleCallback ::
  "int \<Rightarrow> ip \<Rightarrow> int \<Rightarrow> (ip \<rightharpoonup> int list) \<Rightarrow> js_error + (ip \<rightharpoonup> int list) \<times> response" where
  "throttleCallback TIME_WINDOW ip now IPMap =
     (case IPMap ip of
        None \<Rightarrow> Inl TypeError
      | Some stored \<Rightarrow>
          (let updatedTimestamps = filter (\<lambda>ts. now - ts < TIME_WINDOW) stored @ [now]
           in Inr (IPMap(ip \<mapsto> updatedTimestamps), Next)))"

text \<open>The constants of the source file.\<close>

definition throttle_MAX_REQUESTS :: int where
  "throttle_MAX_REQUESTS = 5"

definition throttle_TIME_WINDOW :: int where
  "throttle_TIME_WINDOW = 1000"

section \<open>Facts about the request loop\<close>

lemma serve_append:
  "serve f (xs @ ys) s =
     (case serve f xs s of (s', rs) \<Rightarrow>
        (case serve f ys s' of (s'', rs') \<Rightarrow> (s'', rs @ rs')))"
  by (induction xs arbitrary: s) (auto split: prod.splits)

lemma serve_snoc:
  "serve f (xs @ [x]) s =
     (case serve f xs s of (s', rs) \<Rightarrow>
        (case f x s' of (s'', r) \<Rightarrow> (s'', rs @ [r])))"
  by (simp add: serve_append split: prod.splits)

lemma length_serve: "serve f xs s = (s', rs) \<Longrightarrow> length rs = length xs"
  by (induction xs arbitrary: s s' rs) (auto split: prod.splits)

lemma admitted_snoc:
  "length ts = length rs \<Longrightarrow>
   admitted (ts @ [t]) (rs @ [r]) = admitted ts rs @ (if r = Next then [t] else [])"
  by (induction ts rs rule: admitted.induct) auto

lemma admitted_filter_le:
  "length (filter P (admitted ts rs)) \<le> length (filter P ts)"
  by (induction ts rs rule: admitted.induct) auto

lemma fst_serve_snoc: "fst (serve f (xs @ [x]) s) = fst (f x (fst (serve f xs s)))"
  by (simp add: serve_snoc split: prod.splits)

lemma snd_serve_snoc:
  "snd (serve f (xs @ [x]) s) = snd (serve f xs s) @ [snd (f x (fst (serve f xs s)))]"
  by (simp add: serve_snoc split: prod.splits)

lemma length_snd_serve: "length (snd (serve f xs s)) = length xs"
  using length_serve [of f xs s "fst (serve f xs s)" "snd (serve f xs s)"] by simp

lemma fst_serve_Cons: "fst (serve f (x # xs) s) = fst (serve f xs (fst (f x s)))"
  by (simp split: prod.splits)

lemma snd_serve_Cons:
  "snd (serve f (x # xs) s) = snd (f x s) # snd (serve f xs (fst (f x s)))"
  by (simp split: prod.splits)

lemma ceil_seconds_div: "ceil_seconds x = - ((- x) div 1000)"
proof -
  have "\<lceil>real_of_int x / real_of_int 1000\<rceil> = - ((- x) div 1000)"
    by (rule ceiling_divide_eq_div)
  then show ?thesis by (simp add: ceil_seconds_def)
qed

section \<open>Rounding to the nearest double\<close>

lemma roundTiesToEven_mono:
  assumes "x \<le> y"
  shows "roundTiesToEven x \<le> roundTiesToEven y"
proof (cases "\<lfloor>x\<rfloor> = \<lfloor>y\<rfloor>")
  case True
  with assms have "x - of_int \<lfloor>x\<rfloor> \<le> y - of_int \<lfloor>y\<rfloor>" by simp
  with True show ?thesis
    by (auto simp: roundTiesToEven_def Let_def)
next
  case False
  with assms have "\<lfloor>x\<rfloor> < \<lfloor>y\<rfloor>" using floor_mono [OF assms] by simp
  moreover have "roundTiesToEven x \<le> \<lfloor>x\<rfloor> + 1"
    by (simp add: roundTiesToEven_def Let_def)
  moreover have "\<lfloor>y\<rfloor> \<le> roundTiesToEven y"
    by (simp add: roundTiesToEven_def Let_def)
  ultimately show ?thesis by linarith
qed

lemma roundTiesToEven_of_int: "roundTiesToEven (of_int n) = n"
  by (simp add: roundTiesToEven_def)

lemma roundTiesToEven_minus: "roundTiesToEven (- y) = - roundTiesToEven y"
proof (cases "y = of_int \<lfloor>y\<rfloor>")
  case True
  then obtain n where "y = of_int n" ..
  then have "roundTiesToEven (- y) = roundTiesToEven (of_int (- n))" by simp
  also have "\<dots> = - n" by (rule roundTiesToEven_of_int)
  finally show ?thesis using \<open>y = of_int n\<close> by (simp add: roundTiesToEven_of_int)
next
  case False
  then have lt: "of_int \<lfloor>y\<rfloor> < y" by linarith
  have fl: "\<lfloor>- y\<rfloor> = - \<lfloor>y\<rfloor> - 1"
  proof (rule floor_unique)
    show "of_int (- \<lfloor>y\<rfloor> - 1) \<le> - y" by simp linarith
    show "- y < of_int (- \<lfloor>y\<rfloor> - 1) + 1" using lt by simp
  qed
  have par: "even (- \<lfloor>y\<rfloor> - 1) \<longleftrightarrow> odd \<lfloor>y\<rfloor>" by simp
  show ?thesis
    unfolding roundTiesToEven_def Let_def fl par
    by (auto simp: algebra_simps)
qed


lemma exponentUp_bounds:
  "e \<le> exponentUp fuel x e \<and> exponentUp fuel x e \<le> e + int fuel
   \<and> (2 powi e \<le> x \<longrightarrow> 2 powi (exponentUp fuel x e) \<le> x)
   \<and> (exponentUp fuel x e < e + int fuel \<longrightarrow> x < 2 powi (exponentUp fuel x e + 1))"
proof (induction fuel arbitrary: e)
  case 0
  then show ?case by simp
next
  case (Suc fuel)
  show ?case
  proof (cases "2 powi (e + 1) \<le> x")
    case True
    with Suc.IH [of "e + 1"] show ?thesis by auto
  next
    case False
    then show ?thesis by simp
  qed
qed

lemma exponentUp_mono:
  "x \<le> y \<Longrightarrow> exponentUp fuel x e \<le> exponentUp fuel y e"
proof (induction fuel arbitrary: e)
  case 0
  then show ?case by simp
next
  case (Suc fuel)
  show ?case
  proof (cases "2 powi (e + 1) \<le> x")
    case True
    with Suc.prems have "2 powi (e + 1) \<le> y" by simp
    with True Suc.IH [OF Suc.prems, of "e + 1"] show ?thesis by simp
  next
    case False
    with exponentUp_bounds [of e "Suc fuel" y] show ?thesis by simp
  qed
qed

lemma exponentDown_bounds:
  "e - int fuel \<le> exponentDown fuel x e \<and> exponentDown fuel x e \<le> e
   \<and> (x < 2 powi (e + 1) \<longrightarrow> x < 2 powi (exponentDown fuel x e + 1))
   \<and> (e - int fuel < exponentDown fuel x e \<longrightarrow> 2 powi (exponentDown fuel x e) \<le> x)"
proof (induction fuel arbitrary: e)
  case 0
  then show ?case by simp
next
  case (Suc fuel)
  show ?case
  proof (cases "x < 2 powi e")
    case True
    with Suc.IH [of "e - 1"] show ?thesis by auto
  next
    case False
    then show ?thesis by simp
  qed
qed

lemma exponentDown_mono:
  "x \<le> y \<Longrightarrow> exponentDown fuel x e \<le> exponentDown fuel y e"
proof (induction fuel arbitrary: e)
  case 0
  then show ?case by simp
next
  case (Suc fuel)
  show ?case
  proof (cases "y < 2 powi e")
    case True
    with Suc.prems have "x < 2 powi e" by simp
    with True Suc.IH [OF Suc.prems, of "e - 1"] show ?thesis by simp
  next
    case False
    with exponentDown_bounds [of e "Suc fuel" x] show ?thesis by simp
  qed
qed

lemma exponentOf_mono:
  assumes "\<bar>x\<bar> \<le> \<bar>y\<bar>"
  shows "exponentOf x \<le> exponentOf y"
proof (cases "1 \<le> \<bar>x\<bar>")
  case True
  with assms have "1 \<le> \<bar>y\<bar>" by simp
  with True exponentUp_mono [OF assms] show ?thesis by (simp add: exponentOf_def)
next
  case False
  show ?thesis
  proof (cases "1 \<le> \<bar>y\<bar>")
    case True
    from exponentDown_bounds [of "- 1" 1021 "\<bar>x\<bar>"] exponentUp_bounds [of 0 1023 "\<bar>y\<bar>"]
    have "exponentDown 1021 \<bar>x\<bar> (- 1) \<le> exponentUp 1023 \<bar>y\<bar> 0" by linarith
    with True False show ?thesis by (simp add: exponentOf_def)
  next
    case no: False
    with False exponentDown_mono [OF assms] show ?thesis by (simp add: exponentOf_def)
  qed
qed

lemma exponentOf_range: "- 1022 \<le> exponentOf x" "exponentOf x \<le> 1023"
  using exponentDown_bounds [of "- 1" 1021 "\<bar>x\<bar>"] exponentUp_bounds [of 0 1023 "\<bar>x\<bar>"]
  by (auto simp: exponentOf_def)

lemma exponentOf_upper:
  assumes "exponentOf x < 1023"
  shows "\<bar>x\<bar> < 2 powi (exponentOf x + 1)"
proof (cases "1 \<le> \<bar>x\<bar>")
  case True
  with assms exponentUp_bounds [of 0 1023 "\<bar>x\<bar>"] show ?thesis
    by (simp add: exponentOf_def)
next
  case False
  then have "\<bar>x\<bar> < 2 powi (- 1 + 1)" by simp
  with False exponentDown_bounds [of "- 1" 1021 "\<bar>x\<bar>"] show ?thesis
    by (simp add: exponentOf_def)
qed

lemma exponentOf_lower:
  assumes "- 1022 < exponentOf x"
  shows "2 powi (exponentOf x) \<le> \<bar>x\<bar>"
proof (cases "1 \<le> \<bar>x\<bar>")
  case True
  then have "2 powi 0 \<le> \<bar>x\<bar>" by simp
  with True exponentUp_bounds [of 0 1023 "\<bar>x\<bar>"] show ?thesis
    by (simp add: exponentOf_def)
next
  case False
  with assms exponentDown_bounds [of "- 1" 1021 "\<bar>x\<bar>"] show ?thesis
    by (simp add: exponentOf_def)
qed

lemma exponentOf_eqI:
  assumes "2 powi e \<le> \<bar>x\<bar>" and "\<bar>x\<bar> < 2 powi (e + 1)" and "- 1022 \<le> e" and "e \<le> 1023"
  shows "exponentOf x = e"
proof (rule ccontr)
  assume "exponentOf x \<noteq> e"
  then consider "exponentOf x < e" | "e < exponentOf x" by linarith
  then show False
  proof cases
    case 1
    with assms(4) have "exponentOf x < 1023" by simp
    then have "\<bar>x\<bar> < 2 powi (exponentOf x + 1)" by (rule exponentOf_upper)
    also from 1 have "(2::real) powi (exponentOf x + 1) \<le> 2 powi e"
      by (intro power_int_increasing) simp_all
    finally show False using assms(1) by simp
  next
    case 2
    with assms(3) have "- 1022 < exponentOf x" by simp
    then have "2 powi (exponentOf x) \<le> \<bar>x\<bar>" by (rule exponentOf_lower)
    moreover from 2 have "(2::real) powi (e + 1) \<le> 2 powi (exponentOf x)"
      by (intro power_int_increasing) simp_all
    ultimately show False using assms(2) by simp
  qed
qed


lemma toDouble_zero: "toDouble 0 = 0"
  by (simp add: toDouble_def)

lemma toDouble_minus: "toDouble (- x) = - toDouble x"
proof -
  have "exponentOf (- x) = exponentOf x" by (simp add: exponentOf_def)
  then show ?thesis
    by (simp add: toDouble_def roundTiesToEven_minus)
qed

lemma toDouble_nonneg:
  assumes "0 \<le> x"
  shows "0 \<le> toDouble x"
proof (cases "x = 0")
  case True
  then show ?thesis by (simp add: toDouble_zero)
next
  case False
  let ?u = "(2::real) powi (exponentOf x - 52)"
  have u: "0 < ?u" by simp
  with assms have "0 \<le> x / ?u" by simp
  then have "roundTiesToEven 0 \<le> roundTiesToEven (x / ?u)" by (rule roundTiesToEven_mono)
  moreover have "roundTiesToEven 0 = 0" using roundTiesToEven_of_int [of 0] by simp
  ultimately have "0 \<le> roundTiesToEven (x / ?u)" by simp
  with False u show ?thesis by (simp add: toDouble_def)
qed

lemma toDouble_mono_pos:
  assumes "0 < x" and "x \<le> y"
  shows "toDouble x \<le> toDouble y"
proof -
  let ?ex = "exponentOf x" and ?ey = "exponentOf y"
  let ?ux = "(2::real) powi (?ex - 52)" and ?uy = "(2::real) powi (?ey - 52)"
  from assms have y: "0 < y" by simp
  from assms have abs: "\<bar>x\<bar> \<le> \<bar>y\<bar>" by simp
  have dx: "toDouble x = of_int (roundTiesToEven (x / ?ux)) * ?ux"
    using assms(1) by (simp add: toDouble_def)
  have dy: "toDouble y = of_int (roundTiesToEven (y / ?uy)) * ?uy"
    using y by (simp add: toDouble_def)
  from exponentOf_mono [OF abs] have le: "?ex \<le> ?ey" .
  show ?thesis
  proof (cases "?ex = ?ey")
    case True
    from assms(2) have "x / ?ux \<le> y / ?ux" by (simp add: divide_right_mono)
    then have "roundTiesToEven (x / ?ux) \<le> roundTiesToEven (y / ?ux)" by (rule roundTiesToEven_mono)
    then have "of_int (roundTiesToEven (x / ?ux)) * ?ux \<le> of_int (roundTiesToEven (y / ?ux)) * ?ux"
      by (simp add: mult_right_mono)
    with True dx dy show ?thesis by simp
  next
    case False
    with le have lt: "?ex < ?ey" by simp
    with exponentOf_range(2) [of y] have "?ex < 1023" by linarith
    then have "\<bar>x\<bar> < 2 powi (?ex + 1)" by (rule exponentOf_upper)
    with assms(1) have xb: "x \<le> 2 powi (?ex + 1)" by simp
    have split_x: "(2::real) powi (?ex + 1) = of_int (2 ^ 53) * ?ux"
    proof -
      have "(2::real) powi (?ex + 1) = 2 powi (53 + (?ex - 52))"
        by (rule arg_cong [where f = "\<lambda>k. 2 powi k"]) simp
      also have "\<dots> = 2 powi 53 * ?ux" by (rule power_int_add) simp
      finally show ?thesis by simp
    qed
    from xb have "x / ?ux \<le> 2 powi (?ex + 1) / ?ux" by (simp add: divide_right_mono)
    also have "\<dots> = of_int (2 ^ 53)" by (simp add: split_x)
    finally have "roundTiesToEven (x / ?ux) \<le> roundTiesToEven (of_int (2 ^ 53))"
      by (rule roundTiesToEven_mono)
    then have "roundTiesToEven (x / ?ux) \<le> 2 ^ 53" by (simp only: roundTiesToEven_of_int)
    then have "real_of_int (roundTiesToEven (x / ?ux)) \<le> real_of_int (2 ^ 53)" by (simp only: of_int_le_iff)
    then have "of_int (roundTiesToEven (x / ?ux)) * ?ux \<le> of_int (2 ^ 53) * ?ux"
      by (rule mult_right_mono) simp
    with dx split_x have upper: "toDouble x \<le> 2 powi (?ex + 1)" by simp
    from lt exponentOf_range(1) [of x] have "- 1022 < ?ey" by linarith
    then have "2 powi ?ey \<le> \<bar>y\<bar>" by (rule exponentOf_lower)
    with y have yb: "2 powi ?ey \<le> y" by simp
    have split_y: "(2::real) powi ?ey = of_int (2 ^ 52) * ?uy"
    proof -
      have "(2::real) powi ?ey = 2 powi (52 + (?ey - 52))"
        by (rule arg_cong [where f = "\<lambda>k. 2 powi k"]) simp
      also have "\<dots> = 2 powi 52 * ?uy" by (rule power_int_add) simp
      finally show ?thesis by simp
    qed
    from yb have "2 powi ?ey / ?uy \<le> y / ?uy" by (simp add: divide_right_mono)
    moreover have "2 powi ?ey / ?uy = of_int (2 ^ 52)" by (simp add: split_y)
    ultimately have "of_int (2 ^ 52) \<le> y / ?uy" by simp
    then have "roundTiesToEven (of_int (2 ^ 52)) \<le> roundTiesToEven (y / ?uy)"
      by (rule roundTiesToEven_mono)
    then have "2 ^ 52 \<le> roundTiesToEven (y / ?uy)" by (simp only: roundTiesToEven_of_int)
    then have "real_of_int (2 ^ 52) \<le> real_of_int (roundTiesToEven (y / ?uy))" by (simp only: of_int_le_iff)
    then have "of_int (2 ^ 52) * ?uy \<le> of_int (roundTiesToEven (y / ?uy)) * ?uy"
      by (rule mult_right_mono) simp
    with dy split_y have lower: "2 powi ?ey \<le> toDouble y" by simp
    from lt have "(2::real) powi (?ex + 1) \<le> 2 powi ?ey"
      by (intro power_int_increasing) simp_all
    with upper lower show ?thesis by linarith
  qed
qed

lemma toDouble_mono:
  assumes "x \<le> y"
  shows "toDouble x \<le> toDouble y"
proof -
  consider "0 < x" | "x \<le> 0" "0 \<le> y" | "y < 0" by linarith
  then show ?thesis
  proof cases
    case 1
    then show ?thesis using assms by (rule toDouble_mono_pos)
  next
    case 2
    from 2(1) have "0 \<le> toDouble (- x)" by (intro toDouble_nonneg) simp
    then have "toDouble x \<le> 0" by (simp add: toDouble_minus)
    with toDouble_nonneg [OF 2(2)] show ?thesis by simp
  next
    case 3
    with assms have "0 < - y" and "- y \<le> - x" by simp_all
    then have "toDouble (- y) \<le> toDouble (- x)" by (rule toDouble_mono_pos)
    then show ?thesis by (simp add: toDouble_minus)
  qed
qed

text \<open>A real that is a double already is its own nearest double.\<close>

lemma toDouble_exact:
  assumes "2 powi e \<le> \<bar>x\<bar>" and "\<bar>x\<bar> < 2 powi (e + 1)" and "- 1022 \<le> e" and "e \<le> 1023"
    and "x / 2 powi (e - 52) = of_int n"
  shows "toDouble x = x"
proof -
  have e: "exponentOf x = e" by (rule exponentOf_eqI [OF assms(1-4)])
  from assms(1) have "x \<noteq> 0"
    by (metis abs_zero not_le zero_less_power_int zero_less_numeral)
  have "roundTiesToEven (x / 2 powi (e - 52)) = n"
    by (simp only: assms(5) roundTiesToEven_of_int)
  with \<open>x \<noteq> 0\<close> e have "toDouble x = of_int n * 2 powi (e - 52)" by (simp add: toDouble_def)
  also have "of_int n * 2 powi (e - 52) = x / 2 powi (e - 52) * 2 powi (e - 52)"
    by (simp only: assms(5))
  also have "\<dots> = x" by simp
  finally show ?thesis .
qed

lemma toDouble_one: "toDouble 1 = 1"
  by (rule toDouble_exact [where e = 0 and n = "2 ^ 52"]) (simp_all add: power_int_minus)

lemma toDouble_half: "toDouble (1 / 2) = 1 / 2"
  by (rule toDouble_exact [where e = "- 1" and n = "2 ^ 52"]) (simp_all add: power_int_minus)

lemma toDouble_two: "toDouble 2 = 2"
  by (rule toDouble_exact [where e = 1 and n = "2 ^ 52"]) (simp_all add: power_int_minus)

lemma toDouble_three_halves: "toDouble (3 / 2) = 3 / 2"
  by (rule toDouble_exact [where e = 0 and n = "3 * 2 ^ 51"]) (simp_all add: power_int_minus)

lemma toDouble_five_halves: "toDouble (5 / 2) = 5 / 2"
  by (rule toDouble_exact [where e = 1 and n = "5 * 2 ^ 50"]) (simp_all add: power_int_minus)

lemma toDouble_eq:
  assumes "2 powi e \<le> \<bar>x\<bar>" and "\<bar>x\<bar> < 2 powi (e + 1)" and "- 1022 \<le> e" and "e \<le> 1023"
    and "roundTiesToEven (x / 2 powi (e - 52)) = n"
  shows "toDouble x = of_int n * 2 powi (e - 52)"
proof -
  have e: "exponentOf x = e" by (rule exponentOf_eqI [OF assms(1-4)])
  from assms(1) have "x \<noteq> 0"
    by (metis abs_zero not_le zero_less_power_int zero_less_numeral)
  with e assms(5) show ?thesis by (simp add: toDouble_def)
qed

text \<open>Integers below \<open>2^53\<close> in magnitude are doubles.\<close>

lemma toDouble_of_int:
  assumes "\<bar>n\<bar> < 2 ^ 53"
  shows "toDouble (of_int n) = of_int n"
proof (cases "n = 0")
  case True
  then show ?thesis by (simp add: toDouble_zero)
next
  case False
  let ?x = "real_of_int n"
  let ?e = "exponentOf ?x"
  from False have "1 \<le> \<bar>n\<bar>" by simp
  then have "real_of_int 1 \<le> real_of_int \<bar>n\<bar>" by (simp only: of_int_le_iff)
  then have one: "1 \<le> \<bar>?x\<bar>" by simp
  then have e0: "0 \<le> ?e"
    using exponentUp_bounds [of 0 1023 "\<bar>?x\<bar>"] by (simp add: exponentOf_def)
  then have "- 1022 < ?e" by simp
  then have low: "2 powi ?e \<le> \<bar>?x\<bar>" by (rule exponentOf_lower)
  from assms have "real_of_int \<bar>n\<bar> < real_of_int (2 ^ 53)" by (simp only: of_int_less_iff)
  then have high: "\<bar>?x\<bar> < 2 powi 53" by simp
  have e53: "?e < 53"
  proof (rule ccontr)
    assume "\<not> ?e < 53"
    then have "53 \<le> ?e" by simp
    then have "(2::real) powi 53 \<le> 2 powi ?e"
      by (intro power_int_increasing) simp_all
    with low high show False by linarith
  qed
  define k where "k = nat (52 - ?e)"
  from e53 have k: "int k = 52 - ?e" by (simp add: k_def)
  have u: "(2::real) powi (?e - 52) = 1 / 2 ^ k"
  proof -
    have "?e - 52 = - int k" using k by simp
    then have "(2::real) powi (?e - 52) = 2 powi (- int k)" by (simp only:)
    also have "\<dots> = inverse (2 powi (int k))" by (rule power_int_minus)
    also have "\<dots> = 1 / 2 ^ k" by (simp add: inverse_eq_divide)
    finally show ?thesis .
  qed
  have "?x / 2 powi (?e - 52) = of_int (n * 2 ^ k)" by (simp add: u)
  then have "roundTiesToEven (?x / 2 powi (?e - 52)) = n * 2 ^ k"
    by (simp only: roundTiesToEven_of_int)
  with False show ?thesis by (simp add: toDouble_def u)
qed

lemma toDouble_numeral:
  "numeral k < (2 ^ 53 :: int) \<Longrightarrow> toDouble (numeral k) = numeral k"
  using toDouble_of_int [of "numeral k"] by simp

lemma roundTiesToEven_error: "\<bar>real_of_int (roundTiesToEven y) - y\<bar> \<le> 1 / 2"
proof -
  define r where "r = y - real_of_int \<lfloor>y\<rfloor>"
  have r: "0 \<le> r" "r < 1" unfolding r_def by linarith+
  have y: "y = real_of_int \<lfloor>y\<rfloor> + r" by (simp add: r_def)
  consider "r < 1 / 2" | "1 / 2 < r" | "r = 1 / 2" by linarith
  then show ?thesis
  proof cases
    case 1
    then have "roundTiesToEven y = \<lfloor>y\<rfloor>" by (simp add: roundTiesToEven_def Let_def r_def)
    then have "real_of_int (roundTiesToEven y) - y = - r" by (simp add: r_def)
    with 1 r show ?thesis by simp
  next
    case 2
    then have "roundTiesToEven y = \<lfloor>y\<rfloor> + 1" by (simp add: roundTiesToEven_def Let_def r_def)
    then have "real_of_int (roundTiesToEven y) - y = 1 - r" by (simp add: r_def)
    with 2 r show ?thesis by simp
  next
    case 3
    then have "roundTiesToEven y = \<lfloor>y\<rfloor> \<or> roundTiesToEven y = \<lfloor>y\<rfloor> + 1"
      by (simp add: roundTiesToEven_def Let_def r_def)
    then have "real_of_int (roundTiesToEven y) - y = - r \<or> real_of_int (roundTiesToEven y) - y = 1 - r"
      by (auto simp: r_def)
    with 3 show ?thesis by auto
  qed
qed

text \<open>Rounding moves a number by at most half the spacing of the doubles around it.\<close>

lemma toDouble_half_ulp:
  "\<bar>toDouble x - x\<bar> \<le> 2 powi (exponentOf x - 52) / 2"
proof (cases "x = 0")
  case True
  then show ?thesis by (simp add: toDouble_zero)
next
  case False
  let ?u = "(2::real) powi (exponentOf x - 52)"
  have u: "0 < ?u" by simp
  have "toDouble x - x = (real_of_int (roundTiesToEven (x / ?u)) - x / ?u) * ?u"
    using False u by (simp add: toDouble_def algebra_simps)
  then have "\<bar>toDouble x - x\<bar> = \<bar>real_of_int (roundTiesToEven (x / ?u)) - x / ?u\<bar> * ?u"
    using u by (simp add: abs_mult)
  also have "\<dots> \<le> 1 / 2 * ?u"
    using roundTiesToEven_error [of "x / ?u"] u by (intro mult_right_mono) simp_all
  finally show ?thesis by simp
qed

lemma toDouble_error:
  assumes "1 \<le> M" and "\<bar>x\<bar> \<le> M"
  shows "\<bar>toDouble x - x\<bar> \<le> M / 2 ^ 53"
proof -
  from assms have abs: "\<bar>x\<bar> \<le> \<bar>M\<bar>" by simp
  from assms(1) have "1 \<le> \<bar>M\<bar>" by simp
  then have "0 \<le> exponentOf M"
    using exponentUp_bounds [of 0 1023 "\<bar>M\<bar>"] by (simp add: exponentOf_def)
  then have "- 1022 < exponentOf M" by simp
  then have "2 powi (exponentOf M) \<le> \<bar>M\<bar>" by (rule exponentOf_lower)
  with assms(1) have low: "2 powi (exponentOf M) \<le> M" by simp
  from exponentOf_mono [OF abs] have "(2::real) powi (exponentOf x - 52) \<le> 2 powi (exponentOf M - 52)"
    by (intro power_int_increasing) simp_all
  also have "(2::real) powi (exponentOf M - 52) = 2 powi (exponentOf M) / 2 ^ 52"
    by (simp add: power_int_diff)
  also have "\<dots> \<le> M / 2 ^ 52" using low by (simp add: divide_right_mono)
  finally have "2 powi (exponentOf x - 52) / 2 \<le> M / 2 ^ 52 / 2" by simp
  with toDouble_half_ulp [of x] show ?thesis by simp
qed


lemma toDouble_error_count:
  assumes "0 \<le> n" and "0 \<le> a" and "a \<le> 1"
  shows "\<bar>toDouble (real_of_int n * a) - real_of_int n * a\<bar> \<le> real_of_int n / 2 ^ 53"
proof (cases "n = 0")
  case True
  then show ?thesis by (simp add: toDouble_zero)
next
  case False
  with assms(1) have "1 \<le> n" by simp
  then have one: "1 \<le> real_of_int n" by simp
  from assms have "real_of_int n * a \<le> real_of_int n * 1"
    by (intro mult_left_mono) simp_all
  moreover from assms have "0 \<le> real_of_int n * a" by simp
  ultimately have "\<bar>real_of_int n * a\<bar> \<le> real_of_int n" by simp
  with one show ?thesis by (rule toDouble_error)
qed

lemma toDouble_unit_interval:
  assumes "0 \<le> x" and "x \<le> 1"
  shows "0 \<le> toDouble x" and "toDouble x \<le> 1" and "\<bar>toDouble x - x\<bar> \<le> 1 / 2 ^ 53"
proof -
  from assms(1) have "toDouble 0 \<le> toDouble x" by (rule toDouble_mono)
  then show "0 \<le> toDouble x" by (simp add: toDouble_zero)
  from assms(2) have "toDouble x \<le> toDouble 1" by (rule toDouble_mono)
  then show "toDouble x \<le> 1" by (simp add: toDouble_one)
  from assms have "\<bar>x\<bar> \<le> 1" by simp
  with toDouble_error [of 1 x] show "\<bar>toDouble x - x\<bar> \<le> 1 / 2 ^ 53" by simp
qed

section \<open>Sliding window log: the per-call contract and the trailing window\<close>

lemma slidingLog_first:
  "requestLogs ip = None \<Longrightarrow>
   slidingWindowRateLimiter windowMs maxRequests ip now requestLogs = (requestLogs(ip \<mapsto> [now]), Next)"
  by (simp add: slidingWindowRateLimiter_def)

lemma slidingLog_later:
  "requestLogs ip = Some l \<Longrightarrow>
   slidingWindowRateLimiter windowMs maxRequests ip now requestLogs =
     (requestLogs(ip \<mapsto> filter (\<lambda>ts. now - ts \<le> windowMs) l @ [now]),
      if int (length (filter (\<lambda>ts. now - ts \<le> windowMs) l @ [now])) > maxRequests
      then Reject (ceil_seconds (windowMs - (now - hd (filter (\<lambda>ts. now - ts \<le> windowMs) l @ [now]))))
      else Next)"
  by (simp add: slidingWindowRateLimiter_def Let_def)

text \<open>
  Claim C6. Each call of the sliding window log does what the per-call contract says:
  it drops every stored timestamp with \<open>now - ts > windowMs\<close>, appends \<open>now\<close>, stores the
  list, and rejects with \<open>retryAfter = ceil((windowMs - (now - oldest)) / 1000)\<close>, \<open>oldest\<close>
  the first element of the stored list, exactly when the stored list is longer than
  \<open>maxRequests\<close>. The first request of an address takes a branch of its own that never
  looks at the limit; it agrees with the contract for every limit of at least one.
\<close>

theorem slidingLog_per_call_contract:
  assumes "requestLogs ip \<noteq> None \<or> 1 \<le> maxRequests"
  shows "slidingWindowRateLimiter windowMs maxRequests ip now requestLogs =
         slidingLog_contract windowMs maxRequests ip now requestLogs"
proof (cases "requestLogs ip")
  case None
  with assms have "1 \<le> maxRequests" by simp
  with None show ?thesis
    by (simp add: slidingLog_first slidingLog_contract_def)
next
  case (Some l)
  have "(\<lambda>ts. \<not> now - ts > windowMs) = (\<lambda>ts. now - ts \<le> windowMs)"
    by (simp add: fun_eq_iff not_less)
  with Some show ?thesis
    by (simp add: slidingLog_later slidingLog_contract_def Let_def ceil_seconds_def)
qed

text \<open>
  The contract at work: a call at 12 with window 10 and limit 2 on the stored list
  \<open>[0, 5, 7]\<close> drops 0, appends 12 and is rejected, the retry hint computed from the
  retained 5; on \<open>[0, 5]\<close> it drops 0, appends 12 and is allowed; a first request with the
  source's constants is allowed.
\<close>

theorem slidingLog_per_call_contract_witness:
  "slidingWindowRateLimiter 10 2 ''10.0.0.7'' 12 [''10.0.0.7'' \<mapsto> [0, 5, 7]] =
     slidingLog_contract 10 2 ''10.0.0.7'' 12 [''10.0.0.7'' \<mapsto> [0, 5, 7]]
   \<and> slidingWindowRateLimiter 10 2 ''10.0.0.7'' 12 [''10.0.0.7'' \<mapsto> [0, 5, 7]] =
       ([''10.0.0.7'' \<mapsto> [5, 7, 12]], Reject 1)
   \<and> slidingWindowRateLimiter 10 2 ''10.0.0.7'' 12 [''10.0.0.7'' \<mapsto> [0, 5]] =
     slidingLog_contract 10 2 ''10.0.0.7'' 12 [''10.0.0.7'' \<mapsto> [0, 5]]
   \<and> slidingWindowRateLimiter 10 2 ''10.0.0.7'' 12 [''10.0.0.7'' \<mapsto> [0, 5]] =
       ([''10.0.0.7'' \<mapsto> [5, 12]], Next)
   \<and> slidingWindowRateLimiter slidingLog_windowMs slidingLog_maxRequests ''10.0.0.7'' 5000 Map.empty =
     slidingLog_contract slidingLog_windowMs slidingLog_maxRequests ''10.0.0.7'' 5000 Map.empty
   \<and> slidingWindowRateLimiter slidingLog_windowMs slidingLog_maxRequests ''10.0.0.7'' 5000 Map.empty =
       ([''10.0.0.7'' \<mapsto> [5000]], Next)"
proof -
  let ?ip = "''10.0.0.7''"
  have "[?ip \<mapsto> [0, 5, 7::int]] ?ip \<noteq> None \<or> (1::int) \<le> 2" by simp
  then have r: "slidingWindowRateLimiter 10 2 ?ip 12 [?ip \<mapsto> [0, 5, 7]] =
                slidingLog_contract 10 2 ?ip 12 [?ip \<mapsto> [0, 5, 7]]"
    by (rule slidingLog_per_call_contract)
  have rv: "slidingLog_contract 10 2 ?ip 12 [?ip \<mapsto> [0, 5, 7]] = ([?ip \<mapsto> [5, 7, 12]], Reject 1)"
    by (simp add: slidingLog_contract_def)
  have "[?ip \<mapsto> [0, 5::int]] ?ip \<noteq> None \<or> (1::int) \<le> 2" by simp
  then have a: "slidingWindowRateLimiter 10 2 ?ip 12 [?ip \<mapsto> [0, 5]] =
                slidingLog_contract 10 2 ?ip 12 [?ip \<mapsto> [0, 5]]"
    by (rule slidingLog_per_call_contract)
  have av: "slidingLog_contract 10 2 ?ip 12 [?ip \<mapsto> [0, 5]] = ([?ip \<mapsto> [5, 12]], Next)"
    by (simp add: slidingLog_contract_def)
  have "(Map.empty :: ip \<rightharpoonup> int list) ?ip \<noteq> None \<or> 1 \<le> slidingLog_maxRequests"
    by (simp add: slidingLog_maxRequests_def)
  then have f: "slidingWindowRateLimiter slidingLog_windowMs slidingLog_maxRequests ?ip 5000 Map.empty =
                slidingLog_contract slidingLog_windowMs slidingLog_maxRequests ?ip 5000 Map.empty"
    by (rule slidingLog_per_call_contract)
  have fv: "slidingLog_contract slidingLog_windowMs slidingLog_maxRequests ?ip 5000 Map.empty =
            ([?ip \<mapsto> [5000]], Next)"
    by (simp add: slidingLog_contract_def slidingLog_maxRequests_def)
  from r rv a av f fv show ?thesis by (simp only: simp_thms)
qed

lemma filter_window_later:
  assumes "t \<le> now"
  shows "filter (\<lambda>ts. now - ts \<le> (w::int)) (filter (\<lambda>ts. t - ts \<le> w) xs) =
         filter (\<lambda>ts. now - ts \<le> w) xs"
  using assms by (induction xs) auto

lemma slidingLog_store_exact:
  assumes "sorted (nows @ [now])" and "requestLogs ip = None"
  shows "fst (serve (slidingWindowRateLimiter windowMs maxRequests ip) (nows @ [now]) requestLogs) ip =
         Some (filter (\<lambda>ts. now - ts \<le> windowMs) nows @ [now])"
  using assms
proof (induction nows arbitrary: now rule: rev_induct)
  case Nil
  then show ?case by (simp add: slidingLog_first)
next
  case (snoc t nows)
  let ?f = "slidingWindowRateLimiter windowMs maxRequests ip"
  from snoc.prems have st: "sorted (nows @ [t])" and le: "t \<le> now"
    by (auto simp: sorted_append)
  have log: "fst (serve ?f (nows @ [t]) requestLogs) ip =
             Some (filter (\<lambda>ts. t - ts \<le> windowMs) nows @ [t])"
    by (rule snoc.IH [OF st snoc.prems(2)])
  have "fst (serve ?f ((nows @ [t]) @ [now]) requestLogs) ip =
        fst (?f now (fst (serve ?f (nows @ [t]) requestLogs))) ip"
    by (simp only: fst_serve_snoc)
  also have "\<dots> = Some (filter (\<lambda>ts. now - ts \<le> windowMs)
                         (filter (\<lambda>ts. t - ts \<le> windowMs) nows @ [t]) @ [now])"
    using log by (simp add: slidingLog_later)
  also have "filter (\<lambda>ts. now - ts \<le> windowMs) (filter (\<lambda>ts. t - ts \<le> windowMs) nows @ [t]) =
             filter (\<lambda>ts. now - ts \<le> windowMs) (nows @ [t])"
    by (simp add: filter_window_later [OF le] del: filter_filter)
  finally show ?case .
qed

lemma filter_window_mono:
  assumes "now \<le> T"
  shows "length (filter (\<lambda>a. T - w \<le> a \<and> a \<le> T) xs) \<le> length (filter (\<lambda>ts. now - ts \<le> (w::int)) xs)"
  using assms by (induction xs) auto

lemma slidingLog_bound_aux:
  assumes "1 \<le> maxRequests" and "sorted nows" and "requestLogs ip = None"
    and "\<forall>t\<in>set nows. t \<le> T"
  shows "int (length (filter (\<lambda>a. T - windowMs \<le> a \<and> a \<le> T)
            (admitted nows (snd (serve (slidingWindowRateLimiter windowMs maxRequests ip) nows requestLogs)))))
         \<le> maxRequests"
  using assms
proof (induction nows arbitrary: T rule: rev_induct)
  case Nil
  then show ?case by simp
next
  case (snoc now nows)
  let ?f = "slidingWindowRateLimiter windowMs maxRequests ip"
  let ?P = "\<lambda>a. T - windowMs \<le> a \<and> a \<le> T"
  let ?rs = "snd (serve ?f nows requestLogs)"
  let ?s = "fst (serve ?f nows requestLogs)"
  let ?r = "snd (?f now ?s)"
  from snoc.prems have st: "sorted nows" and below: "\<forall>t\<in>set nows. t \<le> now" and nowT: "now \<le> T"
    by (auto simp: sorted_append)
  have adm: "admitted (nows @ [now]) (snd (serve ?f (nows @ [now]) requestLogs)) =
             admitted nows ?rs @ (if ?r = Next then [now] else [])"
    by (simp only: snd_serve_snoc admitted_snoc [OF length_snd_serve [symmetric]])
  show ?case
  proof (cases "?r = Next")
    case False
    from below nowT have "\<forall>t\<in>set nows. t \<le> T" by auto
    from snoc.IH [OF snoc.prems(1) st snoc.prems(3) this] False adm
    show ?thesis by simp
  next
    case True
    have len: "int (length (filter (\<lambda>ts. now - ts \<le> windowMs) nows @ [now])) \<le> maxRequests"
    proof (cases nows rule: rev_cases)
      case Nil
      with snoc.prems(1) show ?thesis by simp
    next
      case (snoc ms m)
      from slidingLog_store_exact [of ms m requestLogs ip windowMs maxRequests] st snoc.prems(3) snoc
      have log: "?s ip = Some (filter (\<lambda>ts. m - ts \<le> windowMs) ms @ [m])" by simp
      from below snoc have le: "m \<le> now" by simp
      have eq: "filter (\<lambda>ts. now - ts \<le> windowMs) (filter (\<lambda>ts. m - ts \<le> windowMs) ms @ [m]) =
            filter (\<lambda>ts. now - ts \<le> windowMs) nows"
        using snoc by (simp add: filter_window_later [OF le] del: filter_filter)
      have "?r = (if maxRequests < int (length (filter (\<lambda>ts. now - ts \<le> windowMs) nows @ [now]))
                  then Reject (ceil_seconds (windowMs - (now - hd (filter (\<lambda>ts. now - ts \<le> windowMs) nows @ [now]))))
                  else Next)"
        using log eq by (simp add: slidingLog_later del: filter_append filter.simps)
      with True show ?thesis
        by (simp split: if_splits)
    qed
    have "length (filter ?P (admitted nows ?rs)) \<le> length (filter ?P nows)"
      by (rule admitted_filter_le)
    also have "\<dots> \<le> length (filter (\<lambda>ts. now - ts \<le> windowMs) nows)"
      by (rule filter_window_mono [OF nowT])
    finally have "length (filter ?P (admitted (nows @ [now]) (snd (serve ?f (nows @ [now]) requestLogs))))
          \<le> length (filter (\<lambda>ts. now - ts \<le> windowMs) nows @ [now])"
      unfolding adm by simp
    with len show ?thesis by linarith
  qed
qed


text \<open>
  Claim C1. For requests of one address arriving in clock order at an address the store
  has not seen, and any time \<open>T\<close> not before the last of them, the requests admitted with a
  clock reading in the trailing interval \<open>[T - windowMs, T]\<close> number at most \<open>maxRequests\<close>.
  The stored log after the last request holds every request of the window ending there,
  the rejected ones too.
\<close>

theorem slidingLog_trailing_window_bound:
  assumes "1 \<le> maxRequests" and "sorted nows" and "requestLogs ip = None"
    and "serve (slidingWindowRateLimiter windowMs maxRequests ip) nows requestLogs = (requestLogs', rs)"
    and "\<forall>t\<in>set nows. t \<le> T"
  shows "int (length (filter (\<lambda>a. T - windowMs \<le> a \<and> a \<le> T) (admitted nows rs))) \<le> maxRequests
         \<and> (nows \<noteq> [] \<longrightarrow>
              requestLogs' ip =
                Some (filter (\<lambda>ts. last nows - ts \<le> windowMs) (butlast nows) @ [last nows]))"
proof
  from slidingLog_bound_aux [where requestLogs = requestLogs and ip = ip and windowMs = windowMs,
      OF assms(1-3) assms(5)] assms(4)
  show "int (length (filter (\<lambda>a. T - windowMs \<le> a \<and> a \<le> T) (admitted nows rs))) \<le> maxRequests"
    by simp
next
  show "nows \<noteq> [] \<longrightarrow>
        requestLogs' ip = Some (filter (\<lambda>ts. last nows - ts \<le> windowMs) (butlast nows) @ [last nows])"
  proof
    assume "nows \<noteq> []"
    then have split: "nows = butlast nows @ [last nows]" by simp
    with assms(2) have "sorted (butlast nows @ [last nows])" by simp
    from slidingLog_store_exact [where requestLogs = requestLogs and ip = ip
        and windowMs = windowMs and maxRequests = maxRequests, OF this assms(3)] split assms(4)
    show "requestLogs' ip = Some (filter (\<lambda>ts. last nows - ts \<le> windowMs) (butlast nows) @ [last nows])"
      by simp
  qed
qed

theorem slidingLog_trailing_window_bound_witness:
  "serve (slidingWindowRateLimiter 10 2 ''10.0.0.7'') [0, 5, 7, 12] Map.empty =
     ([''10.0.0.7'' \<mapsto> [5, 7, 12]], [Next, Next, Reject 1, Reject 1])
   \<and> int (length (filter (\<lambda>a. 12 - 10 \<le> a \<and> a \<le> 12)
                    (admitted [0, 5, 7, 12] [Next, Next, Reject 1, Reject 1]))) \<le> 2
   \<and> admitted [0, 5, 7, 12] [Next, Next, Reject 1, Reject 1] = [0, 5]"
proof -
  have run: "serve (slidingWindowRateLimiter 10 2 ''10.0.0.7'') [0, 5, 7, 12] Map.empty =
     ([''10.0.0.7'' \<mapsto> [5, 7, 12]], [Next, Next, Reject 1, Reject 1])"
    by (simp add: slidingWindowRateLimiter_def ceil_seconds_def)
  have "(1::int) \<le> 2" and "sorted [0, 5, 7, 12::int]" and "Map.empty ''10.0.0.7'' = (None :: int list option)"
    and "\<forall>t\<in>set [0, 5, 7, 12::int]. t \<le> 12"
    by simp_all
  from slidingLog_trailing_window_bound [where requestLogs = Map.empty and ip = "''10.0.0.7''"
      and windowMs = 10, OF this(1-3) run this(4)] run
  show ?thesis by simp
qed

section \<open>Fixed window: a full window and the request after it\<close>

lemma fixedWindow_run_in_window:
  assumes "\<forall>t\<in>set nows. t - t0 < windowTime" and "c + int (length nows) \<le> maxRequests"
  shows "serve (fixedWindowRateLimiter windowTime maxRequests ip) nows
           (s(ip \<mapsto> \<lparr>count = c, windowStart = t0\<rparr>)) =
         (s(ip \<mapsto> \<lparr>count = c + int (length nows), windowStart = t0\<rparr>),
          replicate (length nows) Next)"
  using assms
proof (induction nows arbitrary: c)
  case Nil
  then show ?case by simp
next
  case (Cons now nows)
  from Cons.prems have step:
    "fixedWindowRateLimiter windowTime maxRequests ip now (s(ip \<mapsto> \<lparr>count = c, windowStart = t0\<rparr>)) =
       (s(ip \<mapsto> \<lparr>count = c + 1, windowStart = t0\<rparr>), Next)"
    by (simp add: fixedWindowRateLimiter_def)
  from Cons.prems have "\<forall>t\<in>set nows. t - t0 < windowTime"
    and "(c + 1) + int (length nows) \<le> maxRequests"
    by simp_all
  have eq: "c + 1 + int (length nows) = c + int (length (now # nows))" by simp
  from Cons.IH [OF \<open>\<forall>t\<in>set nows. t - t0 < windowTime\<close> \<open>(c + 1) + int (length nows) \<le> maxRequests\<close>]
  have rest: "serve (fixedWindowRateLimiter windowTime maxRequests ip) nows
           (s(ip \<mapsto> \<lparr>count = c + 1, windowStart = t0\<rparr>)) =
         (s(ip \<mapsto> \<lparr>count = c + int (length (now # nows)), windowStart = t0\<rparr>),
          replicate (length nows) Next)"
    unfolding eq .
  show ?case
    by (simp only: serve.simps step rest prod.case length_Cons replicate_Suc)
qed

text \<open>
  Claim C3. With \<open>maxRequests = N\<close>, \<open>N \<ge> 1\<close>: a request at \<open>t0\<close> opens a window, either as the
  first request of its address or because the stored window has run out
  (\<open>t0 - windowStart \<ge> windowTime\<close>). When the next \<open>N - 1\<close> requests fall inside that window
  (\<open>t - t0 < windowTime\<close>) all \<open>N\<close> are admitted, the stored count is \<open>N\<close>, and one more
  request at \<open>now\<close> inside the same window is rejected with
  \<open>retryAfter = ceil((windowTime - (now - t0)) / 1000)\<close>, the store unchanged.
\<close>

theorem fixedWindow_limit_within_window:
  assumes "1 \<le> maxRequests"
    and "ipRequestCounts ip = None
         \<or> (\<exists>entry. ipRequestCounts ip = Some entry \<and> windowTime \<le> t0 - windowStart entry)"
    and "int (length (t0 # rest)) = maxRequests"
    and "\<forall>t\<in>set rest. t - t0 < windowTime"
    and "now - t0 < windowTime"
  shows "serve (fixedWindowRateLimiter windowTime maxRequests ip) ((t0 # rest) @ [now]) ipRequestCounts =
         (ipRequestCounts(ip \<mapsto> \<lparr>count = maxRequests, windowStart = t0\<rparr>),
          replicate (length (t0 # rest)) Next
            @ [Reject \<lceil>real_of_int (windowTime - (now - t0)) / 1000\<rceil>])"
proof -
  let ?f = "fixedWindowRateLimiter windowTime maxRequests ip"
  let ?s1 = "ipRequestCounts(ip \<mapsto> \<lparr>count = 1, windowStart = t0\<rparr>)"
  let ?sN = "ipRequestCounts(ip \<mapsto> \<lparr>count = maxRequests, windowStart = t0\<rparr>)"
  from assms(2) have first: "?f t0 ipRequestCounts = (?s1, Next)"
  proof
    assume "ipRequestCounts ip = None"
    then show ?thesis by (simp add: fixedWindowRateLimiter_def)
  next
    assume "\<exists>entry. ipRequestCounts ip = Some entry \<and> windowTime \<le> t0 - windowStart entry"
    then obtain entry where "ipRequestCounts ip = Some entry"
      and "\<not> t0 - windowStart entry < windowTime"
      by auto
    then show ?thesis by (simp add: fixedWindowRateLimiter_def)
  qed
  from assms(3) have len: "1 + int (length rest) = maxRequests" by simp
  then have "1 + int (length rest) \<le> maxRequests" by simp
  from fixedWindow_run_in_window [OF assms(4) this, of ip ipRequestCounts] len
  have middle: "serve ?f rest ?s1 = (?sN, replicate (length rest) Next)" by simp
  from assms(5) have last: "?f now ?sN = (?sN, Reject \<lceil>real_of_int (windowTime - (now - t0)) / 1000\<rceil>)"
    by (simp add: fixedWindowRateLimiter_def ceil_seconds_def)
  from first middle last show ?thesis
    by (simp add: serve_append)
qed

text \<open>
  The theorem at a first window and at a window opened by the reset branch (a stored
  window of the source's length that began at 0, and a request at 900000).
\<close>

theorem fixedWindow_limit_within_window_witness:
  "serve (fixedWindowRateLimiter fixedWindow_windowTime 3 ''10.0.0.7'') [1000, 1500, 2000, 61000] Map.empty =
     ([''10.0.0.7'' \<mapsto> \<lparr>count = 3, windowStart = 1000\<rparr>], [Next, Next, Next, Reject 840])
   \<and> serve (fixedWindowRateLimiter fixedWindow_windowTime 3 ''10.0.0.7'') [900000, 900500, 901000, 960000]
       [''10.0.0.7'' \<mapsto> \<lparr>count = 3, windowStart = 0\<rparr>] =
     ([''10.0.0.7'' \<mapsto> \<lparr>count = 3, windowStart = 900000\<rparr>], [Next, Next, Next, Reject 840])"
proof -
  let ?ip = "''10.0.0.7''"
  let ?old = "[?ip \<mapsto> \<lparr>count = 3, windowStart = 0\<rparr>]"
  have "(1::int) \<le> 3"
    and "Map.empty ?ip = (None :: fw_entry option)
         \<or> (\<exists>entry. Map.empty ?ip = Some entry \<and> fixedWindow_windowTime \<le> 1000 - windowStart entry)"
    and "int (length [1000, 1500, 2000::int]) = 3"
    and "\<forall>t\<in>set [1500, 2000::int]. t - 1000 < fixedWindow_windowTime"
    and "61000 - 1000 < fixedWindow_windowTime"
    by (simp_all add: fixedWindow_windowTime_def)
  from fixedWindow_limit_within_window [where ipRequestCounts = Map.empty and ip = ?ip, OF this]
  have fresh: "serve (fixedWindowRateLimiter fixedWindow_windowTime 3 ?ip) [1000, 1500, 2000, 61000] Map.empty =
     ([?ip \<mapsto> \<lparr>count = 3, windowStart = 1000\<rparr>], [Next, Next, Next, Reject 840])"
    by (simp add: fixedWindow_windowTime_def numeral_eq_Suc)
  have "(1::int) \<le> 3"
    and "?old ?ip = None
         \<or> (\<exists>entry. ?old ?ip = Some entry \<and> fixedWindow_windowTime \<le> 900000 - windowStart entry)"
    and "int (length [900000, 900500, 901000::int]) = 3"
    and "\<forall>t\<in>set [900500, 901000::int]. t - 900000 < fixedWindow_windowTime"
    and "960000 - 900000 < fixedWindow_windowTime"
    by (simp_all add: fixedWindow_windowTime_def)
  from fixedWindow_limit_within_window [where ipRequestCounts = ?old and ip = ?ip, OF this]
  have expired: "serve (fixedWindowRateLimiter fixedWindow_windowTime 3 ?ip) [900000, 900500, 901000, 960000] ?old =
     ([?ip \<mapsto> \<lparr>count = 3, windowStart = 900000\<rparr>], [Next, Next, Next, Reject 840])"
    by (simp add: fixedWindow_windowTime_def numeral_eq_Suc)
  from fresh expired show ?thesis by (intro conjI)
qed

section \<open>Token bucket: the scenario of ten requests\<close>

lemma tokensToAdd_rate_one:
  "tokensToAdd 1 now bucket = (now - lastRefill bucket) div 1000"
proof -
  have "\<lfloor>real_of_int (now - lastRefill bucket) / real_of_int 1000\<rfloor> = (now - lastRefill bucket) div 1000"
    by (rule floor_divide_of_int_eq)
  then show ?thesis by (simp add: tokensToAdd_def)
qed

text \<open>
  Claim C2. With the source's capacity 10 and refill rate 1: ten requests of a new address
  at one clock reading \<open>t\<close> are all admitted; an eleventh less than a second later (at
  \<open>t + d\<close>, \<open>0 \<le> d < 1000\<close>) is rejected with \<open>retryAfter = 1\<close>; one second after
  that a request is admitted and a second one at the same clock reading is rejected
  again.
\<close>

theorem tokenBucket_scenario:
  assumes "0 \<le> d" and "d < 1000"
  shows "serve (tokenBucketRateLimiter tokenBucket_bucketCapacity tokenBucket_refillRate ip)
           (replicate 10 t @ [t + d, t + d + 1000, t + d + 1000]) Map.empty =
         ([ip \<mapsto> \<lparr>tokens = 0, lastRefill = t + d + 1000\<rparr>],
          replicate 10 Next @ [Reject 1, Next, Reject 1])"
proof -
  from assms have "d div 1000 = 0" and "(d + 1000) div 1000 = 1"
    by simp_all
  then show ?thesis
    by (simp add: tokenBucketRateLimiter_def refill_def tokensToAdd_rate_one
        tokenBucket_bucketCapacity_def tokenBucket_refillRate_def numeral_eq_Suc)
qed

theorem tokenBucket_scenario_witness:
  "serve (tokenBucketRateLimiter tokenBucket_bucketCapacity tokenBucket_refillRate ''10.0.0.7'')
     (replicate 10 5000 @ [5000 + 0, 5000 + 0 + 1000, 5000 + 0 + 1000]) Map.empty =
   ([''10.0.0.7'' \<mapsto> \<lparr>tokens = 0, lastRefill = 5000 + 0 + 1000\<rparr>],
    replicate 10 Next @ [Reject 1, Next, Reject 1])"
proof -
  have "(0::int) \<le> 0" and "(0::int) < 1000" by simp_all
  from tokenBucket_scenario [OF this] show ?thesis .
qed

section \<open>Token bucket: bounds, refill and bursts\<close>

lemma tokensToAdd_nonneg:
  assumes "lastRefill bucket \<le> now" and "0 \<le> refillRate"
  shows "0 \<le> tokensToAdd refillRate now bucket"
proof -
  from assms have "0 \<le> real_of_int (now - lastRefill bucket) / 1000 * refillRate"
    by simp
  then show ?thesis by (simp add: tokensToAdd_def)
qed

lemma tokensToAdd_at_lastRefill:
  "lastRefill bucket = now \<Longrightarrow> tokensToAdd refillRate now bucket = 0"
  by (simp add: tokensToAdd_def)

lemma tokensToAdd_cong:
  "lastRefill bucket' = lastRefill bucket \<Longrightarrow>
   tokensToAdd refillRate now bucket' = tokensToAdd refillRate now bucket"
  by (simp add: tokensToAdd_def)

lemma tokenBucket_first:
  "tokenBuckets ip = None \<Longrightarrow>
   tokenBucketRateLimiter bucketCapacity refillRate ip now tokenBuckets =
     (tokenBuckets(ip \<mapsto> \<lparr>tokens = bucketCapacity - 1, lastRefill = now\<rparr>), Next)"
  by (simp add: tokenBucketRateLimiter_def)

lemma tokenBucket_later:
  "tokenBuckets ip = Some bucket \<Longrightarrow>
   tokenBucketRateLimiter bucketCapacity refillRate ip now tokenBuckets =
     (if tokens (refill bucketCapacity refillRate now bucket) > 0
      then (tokenBuckets(ip \<mapsto> (refill bucketCapacity refillRate now bucket)
              \<lparr>tokens := tokens (refill bucketCapacity refillRate now bucket) - 1\<rparr>), Next)
      else (tokenBuckets(ip \<mapsto> refill bucketCapacity refillRate now bucket), Reject 1))"
  by (simp add: tokenBucketRateLimiter_def Let_def)

text \<open>One call keeps the bucket of a known address within bounds.\<close>

lemma tokenBucket_step_invariant:
  assumes cap: "1 \<le> bucketCapacity" and rate: "0 \<le> refillRate"
    and b: "tokenBuckets ip = Some bucket"
    and inv: "0 \<le> tokens bucket" "tokens bucket \<le> bucketCapacity" "lastRefill bucket \<le> t"
    and le: "t \<le> now"
  shows "\<exists>bucket'. fst (tokenBucketRateLimiter bucketCapacity refillRate ip now tokenBuckets) ip = Some bucket'
           \<and> 0 \<le> tokens bucket' \<and> tokens bucket' \<le> bucketCapacity
           \<and> lastRefill bucket' \<le> now \<and> tokensToAdd refillRate now bucket' = 0"
proof -
  let ?add = "tokensToAdd refillRate now bucket"
  let ?r = "refill bucketCapacity refillRate now bucket"
  from inv(3) le have lr: "lastRefill bucket \<le> now" by simp
  from tokensToAdd_nonneg [OF lr rate] have add: "0 \<le> ?add" .
  have tok: "tokens ?r = min bucketCapacity (tokens bucket + ?add)"
    by (simp add: refill_def)
  have lref: "lastRefill ?r = (if ?add > 0 then now else lastRefill bucket)"
    by (simp add: refill_def)
  from tok add inv cap have range: "0 \<le> tokens ?r" "tokens ?r \<le> bucketCapacity"
    by simp_all
  from lref lr have lr': "lastRefill ?r \<le> now" by simp
  have zero: "tokensToAdd refillRate now ?r = 0"
  proof (cases "?add > 0")
    case True
    with lref have "lastRefill ?r = now" by simp
    then show ?thesis by (rule tokensToAdd_at_lastRefill)
  next
    case False
    with add have "?add = 0" by simp
    moreover from False lref have "lastRefill ?r = lastRefill bucket" by simp
    then have "tokensToAdd refillRate now ?r = ?add" by (rule tokensToAdd_cong)
    ultimately show ?thesis by simp
  qed
  show ?thesis
  proof (cases "tokens ?r > 0")
    case True
    let ?b' = "?r\<lparr>tokens := tokens ?r - 1\<rparr>"
    have "tokensToAdd refillRate now ?b' = tokensToAdd refillRate now ?r"
      by (rule tokensToAdd_cong) simp
    with zero True range lr' b show ?thesis
      by (simp add: tokenBucket_later)
  next
    case False
    with zero range lr' b show ?thesis
      by (simp add: tokenBucket_later)
  qed
qed

lemma tokenBucket_run_invariant_from:
  assumes cap: "1 \<le> bucketCapacity" and rate: "0 \<le> refillRate"
  shows "tokenBuckets ip = Some bucket \<Longrightarrow> 0 \<le> tokens bucket \<Longrightarrow> tokens bucket \<le> bucketCapacity \<Longrightarrow>
         lastRefill bucket \<le> t \<Longrightarrow> tokensToAdd refillRate t bucket = 0 \<Longrightarrow> sorted (t # nows) \<Longrightarrow>
         \<exists>bucket'. fst (serve (tokenBucketRateLimiter bucketCapacity refillRate ip) nows tokenBuckets) ip = Some bucket'
           \<and> 0 \<le> tokens bucket' \<and> tokens bucket' \<le> bucketCapacity
           \<and> lastRefill bucket' \<le> last (t # nows) \<and> tokensToAdd refillRate (last (t # nows)) bucket' = 0"
proof (induction nows arbitrary: tokenBuckets bucket t)
  case Nil
  then show ?case by simp
next
  case (Cons now nows)
  let ?f = "tokenBucketRateLimiter bucketCapacity refillRate ip"
  from Cons.prems(6) have le: "t \<le> now" and st: "sorted (now # nows)" by simp_all
  from tokenBucket_step_invariant [where tokenBuckets = tokenBuckets and ip = ip,
      OF cap rate Cons.prems(1-4) le]
  obtain bucket' where b': "fst (?f now tokenBuckets) ip = Some bucket'"
    and inv': "0 \<le> tokens bucket'" "tokens bucket' \<le> bucketCapacity"
      "lastRefill bucket' \<le> now" "tokensToAdd refillRate now bucket' = 0"
    by blast
  from Cons.IH [where tokenBuckets = "fst (?f now tokenBuckets)", OF b' inv' st]
  have "\<exists>b. fst (serve ?f nows (fst (?f now tokenBuckets))) ip = Some b
           \<and> 0 \<le> tokens b \<and> tokens b \<le> bucketCapacity
           \<and> lastRefill b \<le> last (now # nows) \<and> tokensToAdd refillRate (last (now # nows)) b = 0" .
  moreover have "fst (serve ?f (now # nows) tokenBuckets) = fst (serve ?f nows (fst (?f now tokenBuckets)))"
    by (rule fst_serve_Cons)
  moreover have "last (t # now # nows) = last (now # nows)" by simp
  ultimately show ?case by (simp only:)
qed

lemma tokenBucket_run_invariant:
  assumes cap: "1 \<le> bucketCapacity" and rate: "0 \<le> refillRate"
    and st: "sorted nows" and ne: "nows \<noteq> []" and fresh: "tokenBuckets ip = None"
  shows "\<exists>bucket. fst (serve (tokenBucketRateLimiter bucketCapacity refillRate ip) nows tokenBuckets) ip = Some bucket
           \<and> 0 \<le> tokens bucket \<and> tokens bucket \<le> bucketCapacity
           \<and> lastRefill bucket \<le> last nows \<and> tokensToAdd refillRate (last nows) bucket = 0"
proof -
  let ?f = "tokenBucketRateLimiter bucketCapacity refillRate ip"
  from ne obtain t0 rest where nows: "nows = t0 # rest" by (cases nows) auto
  let ?b0 = "\<lparr>tokens = bucketCapacity - 1, lastRefill = t0\<rparr>"
  let ?s0 = "tokenBuckets(ip \<mapsto> ?b0)"
  have first: "?f t0 tokenBuckets = (?s0, Next)"
    using fresh by (rule tokenBucket_first)
  have "?s0 ip = Some ?b0" by simp
  moreover from cap have "0 \<le> tokens ?b0" "tokens ?b0 \<le> bucketCapacity" by simp_all
  moreover have "lastRefill ?b0 \<le> t0" by simp
  moreover have "tokensToAdd refillRate t0 ?b0 = 0" by (rule tokensToAdd_at_lastRefill) simp
  moreover from st nows have "sorted (t0 # rest)" by simp
  ultimately have "\<exists>bucket'. fst (serve ?f rest ?s0) ip = Some bucket'
           \<and> 0 \<le> tokens bucket' \<and> tokens bucket' \<le> bucketCapacity
           \<and> lastRefill bucket' \<le> last (t0 # rest) \<and> tokensToAdd refillRate (last (t0 # rest)) bucket' = 0"
    by (rule tokenBucket_run_invariant_from [where tokenBuckets = ?s0 and ip = ip, OF cap rate])
  moreover have "fst (serve ?f (t0 # rest) tokenBuckets) = fst (serve ?f rest ?s0)"
    by (simp only: fst_serve_Cons first fst_conv)
  ultimately show ?thesis unfolding nows by (simp only:)
qed


lemma tokensToAdd_after_refill:
  assumes "lastRefill bucket \<le> now" and "0 \<le> refillRate"
  shows "tokensToAdd refillRate now (refill bucketCapacity refillRate now bucket) = 0"
proof (cases "tokensToAdd refillRate now bucket > 0")
  case True
  then have "lastRefill (refill bucketCapacity refillRate now bucket) = now"
    by (simp add: refill_def)
  then show ?thesis by (rule tokensToAdd_at_lastRefill)
next
  case False
  with tokensToAdd_nonneg [OF assms] have zero: "tokensToAdd refillRate now bucket = 0" by simp
  then have "lastRefill (refill bucketCapacity refillRate now bucket) = lastRefill bucket"
    by (simp add: refill_def)
  then have "tokensToAdd refillRate now (refill bucketCapacity refillRate now bucket) =
             tokensToAdd refillRate now bucket"
    by (rule tokensToAdd_cong)
  with zero show ?thesis by simp
qed

lemma refill_no_tokens:
  assumes "tokensToAdd refillRate now bucket = 0" and "tokens bucket \<le> bucketCapacity"
  shows "refill bucketCapacity refillRate now bucket = bucket"
  using assms by (simp add: refill_def)

text \<open>
  Requests at one clock reading: the first refills, the following ones find nothing to
  add, so as many are admitted as the refilled bucket holds tokens.
\<close>

lemma tokenBucket_burst:
  assumes rate: "0 \<le> refillRate"
  shows "tokenBuckets ip = Some bucket \<Longrightarrow> 0 \<le> tokens bucket \<Longrightarrow> lastRefill bucket \<le> now \<Longrightarrow>
         0 \<le> bucketCapacity \<Longrightarrow>
         count_list (snd (serve (tokenBucketRateLimiter bucketCapacity refillRate ip)
                            (replicate n now) tokenBuckets)) Next =
         min n (nat (tokens (refill bucketCapacity refillRate now bucket)))"
proof (induction n arbitrary: tokenBuckets bucket)
  case 0
  then show ?case by simp
next
  case (Suc n)
  let ?f = "tokenBucketRateLimiter bucketCapacity refillRate ip"
  let ?r = "refill bucketCapacity refillRate now bucket"
  have zero: "tokensToAdd refillRate now ?r = 0"
    by (rule tokensToAdd_after_refill [OF Suc.prems(3) rate])
  from tokensToAdd_nonneg [OF Suc.prems(3) rate] Suc.prems(2,4)
  have range: "0 \<le> tokens ?r" "tokens ?r \<le> bucketCapacity"
    by (simp_all add: refill_def)
  have lr: "lastRefill ?r \<le> now"
    using Suc.prems(3) by (simp add: refill_def)
  have unfold: "snd (serve ?f (replicate (Suc n) now) tokenBuckets) =
                snd (?f now tokenBuckets) # snd (serve ?f (replicate n now) (fst (?f now tokenBuckets)))"
    by (simp only: replicate_Suc snd_serve_Cons)
  show ?case
  proof (cases "tokens ?r > 0")
    case True
    let ?b' = "?r\<lparr>tokens := tokens ?r - 1\<rparr>"
    from True Suc.prems(1) have step: "?f now tokenBuckets = (tokenBuckets(ip \<mapsto> ?b'), Next)"
      by (simp add: tokenBucket_later)
    have "tokensToAdd refillRate now ?b' = tokensToAdd refillRate now ?r"
      by (rule tokensToAdd_cong) simp
    with zero have zero': "tokensToAdd refillRate now ?b' = 0" by simp
    from range have "tokens ?b' \<le> bucketCapacity" by simp
    with zero' have same: "refill bucketCapacity refillRate now ?b' = ?b'"
      by (rule refill_no_tokens)
    have "(tokenBuckets(ip \<mapsto> ?b')) ip = Some ?b'" by simp
    moreover from True have "0 \<le> tokens ?b'" by simp
    moreover from lr have "lastRefill ?b' \<le> now" by simp
    ultimately have "count_list (snd (serve ?f (replicate n now) (tokenBuckets(ip \<mapsto> ?b')))) Next =
                     min n (nat (tokens (refill bucketCapacity refillRate now ?b')))"
      using Suc.prems(4) by (rule Suc.IH)
    with same have "count_list (snd (serve ?f (replicate n now) (tokenBuckets(ip \<mapsto> ?b')))) Next =
                     min n (nat (tokens ?r - 1))"
      by simp
    with True show ?thesis
      unfolding unfold step by simp
  next
    case False
    with Suc.prems(1) have step: "?f now tokenBuckets = (tokenBuckets(ip \<mapsto> ?r), Reject 1)"
      by (simp add: tokenBucket_later)
    from zero range(2) have same: "refill bucketCapacity refillRate now ?r = ?r"
      by (rule refill_no_tokens)
    have "(tokenBuckets(ip \<mapsto> ?r)) ip = Some ?r" by simp
    then have "count_list (snd (serve ?f (replicate n now) (tokenBuckets(ip \<mapsto> ?r)))) Next =
          min n (nat (tokens (refill bucketCapacity refillRate now ?r)))"
      using range(1) lr Suc.prems(4) by (rule Suc.IH)
    with same False show ?thesis
      unfolding unfold step by simp
  qed
qed

lemma tokensToAdd_carry:
  assumes "tokensToAdd refillRate t bucket = 0"
  shows "tokensToAdd refillRate now bucket \<le> \<lfloor>real_of_int (now - t) / 1000 * refillRate\<rfloor> + 1"
proof -
  let ?x = "real_of_int (t - lastRefill bucket) / 1000 * refillRate"
  let ?y = "real_of_int (now - t) / 1000 * refillRate"
  from assms have "\<lfloor>?x\<rfloor> = 0" by (simp add: tokensToAdd_def)
  then have "?x < 1" by linarith
  moreover have "real_of_int (now - lastRefill bucket) / 1000 * refillRate = ?x + ?y"
    by (simp add: algebra_simps diff_divide_distrib)
  ultimately have "real_of_int (now - lastRefill bucket) / 1000 * refillRate \<le> ?y + 1"
    by linarith
  then have "\<lfloor>real_of_int (now - lastRefill bucket) / 1000 * refillRate\<rfloor> \<le> \<lfloor>?y + 1\<rfloor>"
    by (rule floor_mono)
  then show ?thesis by (simp add: tokensToAdd_def)
qed

text \<open>
  The last clause of claim C7 as it is written fails. With the source's capacity 10 and
  rate 1, after requests at 0 ms and 999 ms the bucket holds 8 tokens and \<open>lastRefill\<close> is
  still 0. Of ten requests at 999 ms eight are admitted (ten with the first two); after an
  idle millisecond, of ten requests at 1000 ms nine are admitted (eleven in all), although
  \<open>floor(0.001 * 1) = 0\<close>: the time since \<open>lastRefill\<close> counts, not the time since the last
  request.
\<close>

theorem tokenBucket_idle_counterexample:
  "count_list (snd (serve (tokenBucketRateLimiter tokenBucket_bucketCapacity tokenBucket_refillRate ''10.0.0.7'')
                      ([0, 999] @ replicate 10 999) Map.empty)) Next = 10
   \<and> count_list (snd (serve (tokenBucketRateLimiter tokenBucket_bucketCapacity tokenBucket_refillRate ''10.0.0.7'')
                      ([0, 999] @ replicate 10 1000) Map.empty)) Next = 11
   \<and> \<lfloor>real_of_int (1000 - 999) / 1000 * tokenBucket_refillRate\<rfloor> = 0"
  by (simp add: tokenBucketRateLimiter_def refill_def tokensToAdd_rate_one
      tokenBucket_bucketCapacity_def tokenBucket_refillRate_def numeral_eq_Suc)

text \<open>
  Claim C7, amended in its last clause. For requests of one address arriving in clock
  order at an address the store has not seen, with a capacity of at least 1 and a
  non-negative refill rate: the stored token count is in \<open>[0, capacity]\<close>; the refill of a
  call at \<open>now\<close> sets the tokens to \<open>min(capacity, tokens + floor(elapsed * refillRate))\<close>
  with \<open>elapsed = (now - lastRefill) / 1000\<close> and moves \<open>lastRefill\<close> to \<open>now\<close> only when that
  floor is positive; an admitted request stores the refilled count less one, a rejected
  one the refilled bucket. After an idle period, of \<open>n\<close> requests arriving together at
  \<open>now\<close> exactly \<open>min(n, min(capacity, tokens + floor(elapsed * refillRate)))\<close> are admitted,
  where the floor is taken over the time since \<open>lastRefill\<close>; it is zero at the last
  request itself and exceeds the floor over the idle time since the last request by at
  most one.
\<close>

theorem tokenBucket_invariant:
  assumes cap: "1 \<le> bucketCapacity" and rate: "0 \<le> refillRate"
    and st: "sorted nows" and ne: "nows \<noteq> []" and fresh: "tokenBuckets ip = None"
    and run: "serve (tokenBucketRateLimiter bucketCapacity refillRate ip) nows tokenBuckets = (tokenBuckets', rs)"
    and later: "last nows \<le> now"
  shows "\<exists>bucket. tokenBuckets' ip = Some bucket
     \<and> 0 \<le> tokens bucket \<and> tokens bucket \<le> bucketCapacity
     \<and> lastRefill bucket \<le> last nows
     \<and> \<lfloor>real_of_int (last nows - lastRefill bucket) / 1000 * refillRate\<rfloor> = 0
     \<and> refill bucketCapacity refillRate now bucket =
          \<lparr>tokens = min bucketCapacity
                      (tokens bucket + \<lfloor>real_of_int (now - lastRefill bucket) / 1000 * refillRate\<rfloor>),
           lastRefill = (if \<lfloor>real_of_int (now - lastRefill bucket) / 1000 * refillRate\<rfloor> > 0
                         then now else lastRefill bucket)\<rparr>
     \<and> tokenBucketRateLimiter bucketCapacity refillRate ip now tokenBuckets' =
          (if tokens (refill bucketCapacity refillRate now bucket) > 0
           then (tokenBuckets'(ip \<mapsto>
                   \<lparr>tokens = tokens (refill bucketCapacity refillRate now bucket) - 1,
                    lastRefill = lastRefill (refill bucketCapacity refillRate now bucket)\<rparr>), Next)
           else (tokenBuckets'(ip \<mapsto> refill bucketCapacity refillRate now bucket), Reject 1))
     \<and> (\<forall>n. count_list (snd (serve (tokenBucketRateLimiter bucketCapacity refillRate ip)
                                 (replicate n now) tokenBuckets')) Next =
              min n (nat (min bucketCapacity
                       (tokens bucket + \<lfloor>real_of_int (now - lastRefill bucket) / 1000 * refillRate\<rfloor>))))
     \<and> \<lfloor>real_of_int (now - lastRefill bucket) / 1000 * refillRate\<rfloor>
          \<le> \<lfloor>real_of_int (now - last nows) / 1000 * refillRate\<rfloor> + 1"
proof -
  let ?f = "tokenBucketRateLimiter bucketCapacity refillRate ip"
  from tokenBucket_run_invariant [where tokenBuckets = tokenBuckets and ip = ip, OF cap rate st ne fresh] run
  obtain bucket where b: "tokenBuckets' ip = Some bucket"
    and range: "0 \<le> tokens bucket" "tokens bucket \<le> bucketCapacity"
    and lr: "lastRefill bucket \<le> last nows"
    and zero: "tokensToAdd refillRate (last nows) bucket = 0"
    by auto
  from lr later have lr': "lastRefill bucket \<le> now" by simp
  from cap have cap0: "0 \<le> bucketCapacity" by simp
  have add: "tokensToAdd refillRate now bucket = \<lfloor>real_of_int (now - lastRefill bucket) / 1000 * refillRate\<rfloor>"
    by (simp add: tokensToAdd_def)
  have c1: "\<lfloor>real_of_int (last nows - lastRefill bucket) / 1000 * refillRate\<rfloor> = 0"
    using zero by (simp add: tokensToAdd_def)
  have c2: "refill bucketCapacity refillRate now bucket =
          \<lparr>tokens = min bucketCapacity
                      (tokens bucket + \<lfloor>real_of_int (now - lastRefill bucket) / 1000 * refillRate\<rfloor>),
           lastRefill = (if \<lfloor>real_of_int (now - lastRefill bucket) / 1000 * refillRate\<rfloor> > 0
                         then now else lastRefill bucket)\<rparr>"
    by (simp add: refill_def add)
  have c3: "?f now tokenBuckets' =
          (if tokens (refill bucketCapacity refillRate now bucket) > 0
           then (tokenBuckets'(ip \<mapsto>
                   \<lparr>tokens = tokens (refill bucketCapacity refillRate now bucket) - 1,
                    lastRefill = lastRefill (refill bucketCapacity refillRate now bucket)\<rparr>), Next)
           else (tokenBuckets'(ip \<mapsto> refill bucketCapacity refillRate now bucket), Reject 1))"
    using b by (simp add: tokenBucket_later refill_def)
  have c4: "count_list (snd (serve ?f (replicate n now) tokenBuckets')) Next =
              min n (nat (min bucketCapacity
                       (tokens bucket + \<lfloor>real_of_int (now - lastRefill bucket) / 1000 * refillRate\<rfloor>)))" for n
    using tokenBucket_burst [where tokenBuckets = tokenBuckets' and ip = ip, OF rate b range(1) lr' cap0, of n]
    by (simp add: refill_def add)
  have c5: "\<lfloor>real_of_int (now - lastRefill bucket) / 1000 * refillRate\<rfloor>
          \<le> \<lfloor>real_of_int (now - last nows) / 1000 * refillRate\<rfloor> + 1"
    using tokensToAdd_carry [OF zero, of now] by (simp add: add)
  from b range lr c1 c2 c3 c4 c5 show ?thesis by blast
qed

theorem tokenBucket_invariant_witness:
  "serve (tokenBucketRateLimiter 10 1 ''10.0.0.7'') [0, 999] Map.empty =
     ([''10.0.0.7'' \<mapsto> \<lparr>tokens = 8, lastRefill = 0\<rparr>], [Next, Next])
   \<and> refill 10 1 1000 \<lparr>tokens = 8, lastRefill = 0\<rparr> = \<lparr>tokens = 9, lastRefill = 1000\<rparr>
   \<and> count_list (snd (serve (tokenBucketRateLimiter 10 1 ''10.0.0.7'') (replicate 12 1000)
                        [''10.0.0.7'' \<mapsto> \<lparr>tokens = 8, lastRefill = 0\<rparr>])) Next = 9"
proof -
  let ?s = "[''10.0.0.7'' \<mapsto> \<lparr>tokens = 8, lastRefill = 0\<rparr>]"
  have run: "serve (tokenBucketRateLimiter 10 1 ''10.0.0.7'') [0, 999] Map.empty = (?s, [Next, Next])"
    by (simp add: tokenBucketRateLimiter_def refill_def tokensToAdd_rate_one)
  have "(1::int) \<le> 10" and "(0::real) \<le> 1" and "sorted [0, 999::int]" and "[0, 999::int] \<noteq> []"
    and "Map.empty ''10.0.0.7'' = (None :: tb_bucket option)" and "last [0, 999::int] \<le> 1000"
    by simp_all
  from tokenBucket_invariant [where tokenBuckets = Map.empty and ip = "''10.0.0.7''",
      OF this(1-5) run this(6)]
  obtain bucket where b: "?s ''10.0.0.7'' = Some bucket"
    and r: "refill 10 1 1000 bucket =
          \<lparr>tokens = min 10 (tokens bucket + \<lfloor>real_of_int (1000 - lastRefill bucket) / 1000 * 1\<rfloor>),
           lastRefill = (if \<lfloor>real_of_int (1000 - lastRefill bucket) / 1000 * 1\<rfloor> > 0
                         then 1000 else lastRefill bucket)\<rparr>"
    and c: "\<forall>n. count_list (snd (serve (tokenBucketRateLimiter 10 1 ''10.0.0.7'') (replicate n 1000) ?s)) Next =
              min n (nat (min 10 (tokens bucket + \<lfloor>real_of_int (1000 - lastRefill bucket) / 1000 * 1\<rfloor>)))"
    by blast
  from b have "bucket = \<lparr>tokens = 8, lastRefill = 0\<rparr>" by simp
  with r c [rule_format, of 12] run show ?thesis by simp
qed

section \<open>Leaky bucket: bounds and the leak step\<close>

lemma leaked_nonneg:
  assumes "lastLeakTime bucket \<le> now" and "0 < leakRate"
  shows "0 \<le> leaked leakRate now bucket"
  using assms by (simp add: leaked_def pos_imp_zdiv_nonneg_iff)

lemma leaked_zero_carry:
  assumes "leaked leakRate now bucket \<le> 0" and "0 < leakRate"
  shows "now - lastLeakTime bucket < leakRate"
proof -
  let ?e = "now - lastLeakTime bucket"
  from assms(1) have "?e div leakRate \<le> 0" by (simp add: leaked_def)
  with assms(2) have "?e div leakRate * leakRate \<le> 0"
    by (simp add: mult_le_0_iff)
  moreover have "?e = ?e div leakRate * leakRate + ?e mod leakRate" by simp
  moreover from assms(2) have "?e mod leakRate < leakRate" by simp
  ultimately show ?thesis by linarith
qed

lemma leaked_after_intervals:
  assumes "lastLeakTime bucket \<le> t" and "t - lastLeakTime bucket < leakRate" and "0 < leakRate"
  shows "leaked leakRate (t + leakRate * k) bucket = k"
proof -
  let ?c = "t - lastLeakTime bucket"
  from assms have "?c div leakRate = 0" by (simp add: div_pos_pos_trivial)
  moreover from assms(3) have "(?c + leakRate * k) div leakRate = k + ?c div leakRate"
    by simp
  ultimately have "(?c + leakRate * k) div leakRate = k" by simp
  moreover have "t + leakRate * k - lastLeakTime bucket = ?c + leakRate * k" by simp
  ultimately have "(t + leakRate * k - lastLeakTime bucket) div leakRate = k" by (simp only:)
  then show ?thesis by (simp add: leaked_def)
qed

lemma leakyBucket_first:
  "buckets ip = None \<Longrightarrow>
   leakyBucketRateLimiter queueCapacity leakRate ip now buckets =
     (buckets(ip \<mapsto> \<lparr>lastLeakTime = now, queue = 1\<rparr>), Next)"
  by (simp add: leakyBucketRateLimiter_def)

lemma leakyBucket_later:
  "buckets ip = Some bucket \<Longrightarrow>
   leakyBucketRateLimiter queueCapacity leakRate ip now buckets =
     (if queue (leak leakRate now bucket) < queueCapacity
      then (buckets(ip \<mapsto> (leak leakRate now bucket)\<lparr>queue := queue (leak leakRate now bucket) + 1\<rparr>), Next)
      else (buckets(ip \<mapsto> leak leakRate now bucket), Reject (ceil_seconds leakRate)))"
  by (simp add: leakyBucketRateLimiter_def Let_def)

lemma leakyBucket_step_invariant:
  assumes cap: "1 \<le> queueCapacity" and rate: "0 < leakRate"
    and b: "buckets ip = Some bucket"
    and inv: "0 \<le> queue bucket" "queue bucket \<le> queueCapacity" "lastLeakTime bucket \<le> t"
    and le: "t \<le> now"
  shows "\<exists>bucket'. fst (leakyBucketRateLimiter queueCapacity leakRate ip now buckets) ip = Some bucket'
           \<and> 0 \<le> queue bucket' \<and> queue bucket' \<le> queueCapacity
           \<and> lastLeakTime bucket' \<le> now \<and> now - lastLeakTime bucket' < leakRate"
proof -
  let ?k = "leaked leakRate now bucket"
  let ?l = "leak leakRate now bucket"
  from inv(3) le have ll: "lastLeakTime bucket \<le> now" by simp
  from leaked_nonneg [OF ll rate] have k: "0 \<le> ?k" .
  have q: "queue ?l = max 0 (queue bucket - ?k)" by (simp add: leak_def)
  have lt: "lastLeakTime ?l = (if ?k > 0 then now else lastLeakTime bucket)" by (simp add: leak_def)
  from q k inv have range: "0 \<le> queue ?l" "queue ?l \<le> queueCapacity" by simp_all
  from lt ll have ll': "lastLeakTime ?l \<le> now" by simp
  have carry: "now - lastLeakTime ?l < leakRate"
  proof (cases "?k > 0")
    case True
    with lt rate show ?thesis by simp
  next
    case False
    then have "?k \<le> 0" by simp
    from leaked_zero_carry [OF this rate] False lt show ?thesis by simp
  qed
  show ?thesis
  proof (cases "queue ?l < queueCapacity")
    case True
    with range ll' carry b show ?thesis by (simp add: leakyBucket_later)
  next
    case False
    with range ll' carry b show ?thesis by (simp add: leakyBucket_later)
  qed
qed

lemma leakyBucket_run_invariant_from:
  assumes cap: "1 \<le> queueCapacity" and rate: "0 < leakRate"
  shows "buckets ip = Some bucket \<Longrightarrow> 0 \<le> queue bucket \<Longrightarrow> queue bucket \<le> queueCapacity \<Longrightarrow>
         lastLeakTime bucket \<le> t \<Longrightarrow> t - lastLeakTime bucket < leakRate \<Longrightarrow> sorted (t # nows) \<Longrightarrow>
         \<exists>bucket'. fst (serve (leakyBucketRateLimiter queueCapacity leakRate ip) nows buckets) ip = Some bucket'
           \<and> 0 \<le> queue bucket' \<and> queue bucket' \<le> queueCapacity
           \<and> lastLeakTime bucket' \<le> last (t # nows) \<and> last (t # nows) - lastLeakTime bucket' < leakRate"
proof (induction nows arbitrary: buckets bucket t)
  case Nil
  then show ?case by simp
next
  case (Cons now nows)
  let ?f = "leakyBucketRateLimiter queueCapacity leakRate ip"
  from Cons.prems(6) have le: "t \<le> now" and st: "sorted (now # nows)" by simp_all
  from leakyBucket_step_invariant [where buckets = buckets and ip = ip, OF cap rate Cons.prems(1-4) le]
  obtain bucket' where b': "fst (?f now buckets) ip = Some bucket'"
    and inv': "0 \<le> queue bucket'" "queue bucket' \<le> queueCapacity"
      "lastLeakTime bucket' \<le> now" "now - lastLeakTime bucket' < leakRate"
    by blast
  from Cons.IH [where buckets = "fst (?f now buckets)", OF b' inv' st]
  have "\<exists>b. fst (serve ?f nows (fst (?f now buckets))) ip = Some b
           \<and> 0 \<le> queue b \<and> queue b \<le> queueCapacity
           \<and> lastLeakTime b \<le> last (now # nows) \<and> last (now # nows) - lastLeakTime b < leakRate" .
  moreover have "fst (serve ?f (now # nows) buckets) = fst (serve ?f nows (fst (?f now buckets)))"
    by (rule fst_serve_Cons)
  moreover have "last (t # now # nows) = last (now # nows)" by simp
  ultimately show ?case by (simp only:)
qed

lemma leakyBucket_run_invariant:
  assumes cap: "1 \<le> queueCapacity" and rate: "0 < leakRate"
    and st: "sorted nows" and ne: "nows \<noteq> []" and fresh: "buckets ip = None"
  shows "\<exists>bucket. fst (serve (leakyBucketRateLimiter queueCapacity leakRate ip) nows buckets) ip = Some bucket
           \<and> 0 \<le> queue bucket \<and> queue bucket \<le> queueCapacity
           \<and> lastLeakTime bucket \<le> last nows \<and> last nows - lastLeakTime bucket < leakRate"
proof -
  let ?f = "leakyBucketRateLimiter queueCapacity leakRate ip"
  from ne obtain t0 rest where nows: "nows = t0 # rest" by (cases nows) auto
  let ?b0 = "\<lparr>lastLeakTime = t0, queue = 1\<rparr>"
  let ?s0 = "buckets(ip \<mapsto> ?b0)"
  have first: "?f t0 buckets = (?s0, Next)"
    using fresh by (rule leakyBucket_first)
  have "?s0 ip = Some ?b0" by simp
  moreover from cap have "0 \<le> queue ?b0" "queue ?b0 \<le> queueCapacity" by simp_all
  moreover have "lastLeakTime ?b0 \<le> t0" by simp
  moreover from rate have "t0 - lastLeakTime ?b0 < leakRate" by simp
  moreover from st nows have "sorted (t0 # rest)" by simp
  ultimately have "\<exists>bucket'. fst (serve ?f rest ?s0) ip = Some bucket'
           \<and> 0 \<le> queue bucket' \<and> queue bucket' \<le> queueCapacity
           \<and> lastLeakTime bucket' \<le> last (t0 # rest) \<and> last (t0 # rest) - lastLeakTime bucket' < leakRate"
    by (rule leakyBucket_run_invariant_from [where buckets = ?s0 and ip = ip, OF cap rate])
  moreover have "fst (serve ?f (t0 # rest) buckets) = fst (serve ?f rest ?s0)"
    by (simp only: fst_serve_Cons first fst_conv)
  ultimately show ?thesis unfolding nows by (simp only:)
qed

text \<open>
  Claim C8. For requests of one address arriving in clock order at an address the store
  has not seen, with a capacity of at least 1 and a positive leak interval: the stored
  queue level is in \<open>[0, capacity]\<close>; a call made \<open>leakRate * k\<close> milliseconds after the last
  request (\<open>k \<ge> 0\<close>, nothing in between) leaks exactly \<open>k\<close>: the level after leaking is
  \<open>max(0, queue - k)\<close>, and \<open>lastLeakTime\<close> moves to the time of the call only when
  \<open>k > 0\<close>. The same holds when the \<open>leakRate * k\<close> milliseconds are counted from the stored
  \<open>lastLeakTime\<close>. The call then admits and counts the request when the level after
  leaking is below the capacity and rejects otherwise.
\<close>

theorem leakyBucket_invariant_and_leak:
  assumes cap: "1 \<le> queueCapacity" and rate: "0 < leakRate"
    and st: "sorted nows" and ne: "nows \<noteq> []" and fresh: "buckets ip = None"
    and run: "serve (leakyBucketRateLimiter queueCapacity leakRate ip) nows buckets = (buckets', rs)"
    and k: "0 \<le> k"
  shows "\<exists>bucket. buckets' ip = Some bucket
     \<and> 0 \<le> queue bucket \<and> queue bucket \<le> queueCapacity
     \<and> leak leakRate (last nows + leakRate * k) bucket =
          \<lparr>lastLeakTime = (if k > 0 then last nows + leakRate * k else lastLeakTime bucket),
           queue = max 0 (queue bucket - k)\<rparr>
     \<and> leak leakRate (lastLeakTime bucket + leakRate * k) bucket =
          \<lparr>lastLeakTime = (if k > 0 then lastLeakTime bucket + leakRate * k else lastLeakTime bucket),
           queue = max 0 (queue bucket - k)\<rparr>
     \<and> leakyBucketRateLimiter queueCapacity leakRate ip (last nows + leakRate * k) buckets' =
          (if max 0 (queue bucket - k) < queueCapacity
           then (buckets'(ip \<mapsto>
                   \<lparr>lastLeakTime = (if k > 0 then last nows + leakRate * k else lastLeakTime bucket),
                    queue = max 0 (queue bucket - k) + 1\<rparr>), Next)
           else (buckets'(ip \<mapsto>
                   \<lparr>lastLeakTime = (if k > 0 then last nows + leakRate * k else lastLeakTime bucket),
                    queue = max 0 (queue bucket - k)\<rparr>),
                 Reject \<lceil>real_of_int leakRate / 1000\<rceil>))"
proof -
  from leakyBucket_run_invariant [where buckets = buckets and ip = ip, OF cap rate st ne fresh] run
  obtain bucket where b: "buckets' ip = Some bucket"
    and range: "0 \<le> queue bucket" "queue bucket \<le> queueCapacity"
    and ll: "lastLeakTime bucket \<le> last nows"
    and carry: "last nows - lastLeakTime bucket < leakRate"
    by auto
  have leaked: "leaked leakRate (last nows + leakRate * k) bucket = k"
    by (rule leaked_after_intervals [OF ll carry rate])
  then have c1: "leak leakRate (last nows + leakRate * k) bucket =
          \<lparr>lastLeakTime = (if k > 0 then last nows + leakRate * k else lastLeakTime bucket),
           queue = max 0 (queue bucket - k)\<rparr>"
    by (simp add: leak_def)
  from rate have "lastLeakTime bucket - lastLeakTime bucket < leakRate" by simp
  then have "leaked leakRate (lastLeakTime bucket + leakRate * k) bucket = k"
    by (rule leaked_after_intervals [OF order_refl _ rate])
  then have c0: "leak leakRate (lastLeakTime bucket + leakRate * k) bucket =
          \<lparr>lastLeakTime = (if k > 0 then lastLeakTime bucket + leakRate * k else lastLeakTime bucket),
           queue = max 0 (queue bucket - k)\<rparr>"
    by (simp add: leak_def)
  from b have c2: "leakyBucketRateLimiter queueCapacity leakRate ip (last nows + leakRate * k) buckets' =
          (if max 0 (queue bucket - k) < queueCapacity
           then (buckets'(ip \<mapsto>
                   \<lparr>lastLeakTime = (if k > 0 then last nows + leakRate * k else lastLeakTime bucket),
                    queue = max 0 (queue bucket - k) + 1\<rparr>), Next)
           else (buckets'(ip \<mapsto>
                   \<lparr>lastLeakTime = (if k > 0 then last nows + leakRate * k else lastLeakTime bucket),
                    queue = max 0 (queue bucket - k)\<rparr>),
                 Reject \<lceil>real_of_int leakRate / 1000\<rceil>))"
    by (simp add: leakyBucket_later c1 ceil_seconds_def)
  from b range c1 c0 c2 show ?thesis by blast
qed

theorem leakyBucket_invariant_and_leak_witness:
  "serve (leakyBucketRateLimiter leakyBucket_queueCapacity leakyBucket_leakRate ''10.0.0.7'')
     [0, 0, 0, 500] Map.empty =
     ([''10.0.0.7'' \<mapsto> \<lparr>lastLeakTime = 0, queue = 4\<rparr>], [Next, Next, Next, Next])
   \<and> leak leakyBucket_leakRate 2500 \<lparr>lastLeakTime = 0, queue = 4\<rparr> = \<lparr>lastLeakTime = 2500, queue = 2\<rparr>
   \<and> leakyBucketRateLimiter leakyBucket_queueCapacity leakyBucket_leakRate ''10.0.0.7'' 2500
        [''10.0.0.7'' \<mapsto> \<lparr>lastLeakTime = 0, queue = 4\<rparr>] =
      ([''10.0.0.7'' \<mapsto> \<lparr>lastLeakTime = 2500, queue = 3\<rparr>], Next)"
proof -
  let ?s = "[''10.0.0.7'' \<mapsto> \<lparr>lastLeakTime = 0, queue = 4\<rparr>]"
  let ?f = "leakyBucketRateLimiter leakyBucket_queueCapacity leakyBucket_leakRate ''10.0.0.7''"
  have run: "serve ?f [0, 0, 0, 500] Map.empty = (?s, [Next, Next, Next, Next])"
    by (simp add: leakyBucketRateLimiter_def leak_def leaked_def
        leakyBucket_queueCapacity_def leakyBucket_leakRate_def)
  have "1 \<le> leakyBucket_queueCapacity" and "0 < leakyBucket_leakRate"
    and "sorted [0, 0, 0, 500::int]" and "[0, 0, 0, 500::int] \<noteq> []"
    and "Map.empty ''10.0.0.7'' = (None :: lb_bucket option)" and "(0::int) \<le> 2"
    by (simp_all add: leakyBucket_queueCapacity_def leakyBucket_leakRate_def)
  from leakyBucket_invariant_and_leak [where buckets = Map.empty and ip = "''10.0.0.7''",
      OF this(1-5) run this(6)]
  obtain bucket where b: "?s ''10.0.0.7'' = Some bucket"
    and l: "leak leakyBucket_leakRate (last [0, 0, 0, 500] + leakyBucket_leakRate * 2) bucket =
          \<lparr>lastLeakTime = (if (2::int) > 0 then last [0, 0, 0, 500] + leakyBucket_leakRate * 2
                            else lastLeakTime bucket),
           queue = max 0 (queue bucket - 2)\<rparr>"
    and c: "?f (last [0, 0, 0, 500] + leakyBucket_leakRate * 2) ?s =
          (if max 0 (queue bucket - 2) < leakyBucket_queueCapacity
           then (?s(''10.0.0.7'' \<mapsto>
                   \<lparr>lastLeakTime = (if (2::int) > 0 then last [0, 0, 0, 500] + leakyBucket_leakRate * 2
                                    else lastLeakTime bucket),
                    queue = max 0 (queue bucket - 2) + 1\<rparr>), Next)
           else (?s(''10.0.0.7'' \<mapsto>
                   \<lparr>lastLeakTime = (if (2::int) > 0 then last [0, 0, 0, 500] + leakyBucket_leakRate * 2
                                    else lastLeakTime bucket),
                    queue = max 0 (queue bucket - 2)\<rparr>),
                 Reject \<lceil>real_of_int leakyBucket_leakRate / 1000\<rceil>))"
    by blast
  from b have "bucket = \<lparr>lastLeakTime = 0, queue = 4\<rparr>" by simp
  with l c run show ?thesis
    by (simp add: leakyBucket_queueCapacity_def leakyBucket_leakRate_def)
qed

section \<open>What a rejected request leaves behind\<close>

lemma fixedWindow_reject_unchanged:
  "fixedWindowRateLimiter windowTime maxRequests ip now ipRequestCounts = (ipRequestCounts', Reject r) \<Longrightarrow>
   ipRequestCounts' = ipRequestCounts"
  by (auto simp: fixedWindowRateLimiter_def split: option.splits if_splits)

lemma tokenBucket_reject_unchanged:
  assumes cap: "1 \<le> bucketCapacity" and rate: "0 \<le> refillRate"
    and b: "tokenBuckets ip = Some bucket"
    and inv: "0 \<le> tokens bucket" "tokens bucket \<le> bucketCapacity" "lastRefill bucket \<le> now"
    and rej: "tokenBucketRateLimiter bucketCapacity refillRate ip now tokenBuckets = (tokenBuckets', Reject r)"
  shows "tokenBuckets' = tokenBuckets \<and> tokensToAdd refillRate now bucket = 0"
proof -
  let ?add = "tokensToAdd refillRate now bucket"
  let ?r = "refill bucketCapacity refillRate now bucket"
  from tokensToAdd_nonneg [OF inv(3) rate] have add: "0 \<le> ?add" .
  from rej b have empty: "\<not> tokens ?r > 0" and store: "tokenBuckets' = tokenBuckets(ip \<mapsto> ?r)"
    by (auto simp: tokenBucket_later split: if_splits)
  have "tokens ?r = min bucketCapacity (tokens bucket + ?add)" by (simp add: refill_def)
  with empty cap have "tokens bucket + ?add \<le> 0" by linarith
  with add inv(1) have zero: "?add = 0" by simp
  from zero inv(2) have "?r = bucket" by (rule refill_no_tokens)
  with store b have "tokenBuckets' = tokenBuckets" by (simp add: map_upd_triv)
  with zero show ?thesis by simp
qed

lemma leak_nothing:
  assumes "leaked leakRate now bucket = 0" and "0 \<le> queue bucket"
  shows "leak leakRate now bucket = bucket"
  using assms by (simp add: leak_def)

lemma leakyBucket_reject_unchanged:
  assumes cap: "1 \<le> queueCapacity" and rate: "0 < leakRate"
    and b: "buckets ip = Some bucket"
    and inv: "0 \<le> queue bucket" "queue bucket \<le> queueCapacity" "lastLeakTime bucket \<le> now"
    and rej: "leakyBucketRateLimiter queueCapacity leakRate ip now buckets = (buckets', Reject r)"
  shows "buckets' = buckets \<and> leaked leakRate now bucket = 0"
proof -
  let ?k = "leaked leakRate now bucket"
  let ?l = "leak leakRate now bucket"
  from leaked_nonneg [OF inv(3) rate] have k: "0 \<le> ?k" .
  from rej b have full: "\<not> queue ?l < queueCapacity" and store: "buckets' = buckets(ip \<mapsto> ?l)"
    by (auto simp: leakyBucket_later split: if_splits)
  have "queue ?l = max 0 (queue bucket - ?k)" by (simp add: leak_def)
  with full cap have "queueCapacity \<le> queue bucket - ?k" by linarith
  with k inv(2) have zero: "?k = 0" by simp
  from zero inv(1) have "?l = bucket" by (rule leak_nothing)
  with store b have "buckets' = buckets" by (simp add: map_upd_triv)
  with zero show ?thesis by simp
qed

lemma filter_snoc_differs:
  assumes "P x"
  shows "filter P xs @ [x] \<noteq> xs"
proof
  assume eq: "filter P xs @ [x] = xs"
  then have "filter P (filter P xs @ [x]) = filter P xs" by simp
  with assms have "filter P xs @ [x] = filter P xs" by simp
  then show False by simp
qed

lemma slidingLog_reject_mutates:
  assumes "0 \<le> windowMs"
    and "slidingWindowRateLimiter windowMs maxRequests ip now requestLogs = (requestLogs', Reject r)"
  shows "requestLogs' ip \<noteq> requestLogs ip"
proof (cases "requestLogs ip")
  case None
  with assms(2) show ?thesis by (simp add: slidingLog_first)
next
  case (Some l)
  from assms(1) have "now - now \<le> windowMs" by simp
  then have "filter (\<lambda>ts. now - ts \<le> windowMs) l @ [now] \<noteq> l"
    by (rule filter_snoc_differs)
  moreover from assms(2) Some
  have "requestLogs' ip = Some (filter (\<lambda>ts. now - ts \<le> windowMs) l @ [now])"
    by (auto simp: slidingLog_later split: if_splits)
  ultimately show ?thesis using Some by simp
qed

lemma shiftWindows_differs: "shiftWindows windowSize now entry \<noteq> entry"
proof (cases "timestamp (current entry) \<noteq> windowStartOf windowSize now")
  case True
  then have "timestamp (current (shiftWindows windowSize now entry)) \<noteq> timestamp (current entry)"
    by (simp add: shiftWindows_def)
  then show ?thesis by auto
next
  case False
  then have "count_w (current (shiftWindows windowSize now entry)) \<noteq> count_w (current entry)"
    by (simp add: shiftWindows_def)
  then show ?thesis by auto
qed

lemma slidingCounter_later:
  "buckets ip = Some entry \<Longrightarrow>
   slidingWindowCounterRateLimiter windowSize maxRequests ip now buckets =
     (buckets(ip \<mapsto> shiftWindows windowSize now entry),
      if totalCount (shiftWindows windowSize now entry) (weightOf windowSize now) > real_of_int maxRequests
      then Reject (ceil_seconds windowSize) else Next)"
  by (simp add: slidingWindowCounterRateLimiter_def Let_def)

lemma slidingCounter_reject_mutates:
  assumes "slidingWindowCounterRateLimiter windowSize maxRequests ip now buckets = (buckets', Reject r)"
  shows "buckets' ip \<noteq> buckets ip"
proof (cases "buckets ip")
  case None
  with assms show ?thesis by (simp add: slidingWindowCounterRateLimiter_def)
next
  case (Some entry)
  with assms have "buckets' ip = Some (shiftWindows windowSize now entry)"
    by (auto simp: slidingCounter_later split: if_splits)
  with Some shiftWindows_differs [of windowSize now entry] show ?thesis by simp
qed

text \<open>
  Claim C10. A rejected request leaves the store of the fixed window untouched, whatever
  the store. For the token bucket and the leaky bucket (capacity at least 1, requests in
  clock order at an address the store had not seen) a rejection means that the refill
  added no token, respectively that nothing leaked, and the store after the call is the
  store before it. The sliding window log (window length not negative) and the sliding
  window counter store a changed entry with every rejection.
\<close>

theorem rejection_atomicity:
  assumes st: "sorted (nows @ [now])" and ne: "nows \<noteq> []"
    and cap: "1 \<le> bucketCapacity" and rate: "0 \<le> refillRate" and fresh: "tokenBuckets ip = None"
    and run: "serve (tokenBucketRateLimiter bucketCapacity refillRate ip) nows tokenBuckets = (tokenBuckets_before, rs)"
    and qcap: "1 \<le> queueCapacity" and lrate: "0 < leakRate" and qfresh: "buckets ip = None"
    and qrun: "serve (leakyBucketRateLimiter queueCapacity leakRate ip) nows buckets = (buckets_before, rs')"
    and win: "0 \<le> windowMs"
  shows "(fixedWindowRateLimiter windowTime maxRequests ip now ipRequestCounts = (ipRequestCounts', Reject r_fixed)
            \<longrightarrow> ipRequestCounts' = ipRequestCounts)
     \<and> (tokenBucketRateLimiter bucketCapacity refillRate ip now tokenBuckets_before = (tokenBuckets_after, Reject r_token)
            \<longrightarrow> tokenBuckets_after = tokenBuckets_before
                \<and> (\<exists>bucket. tokenBuckets_before ip = Some bucket \<and> tokensToAdd refillRate now bucket = 0))
     \<and> (leakyBucketRateLimiter queueCapacity leakRate ip now buckets_before = (buckets_after, Reject r_leaky)
            \<longrightarrow> buckets_after = buckets_before
                \<and> (\<exists>bucket. buckets_before ip = Some bucket \<and> leaked leakRate now bucket = 0))
     \<and> (slidingWindowRateLimiter windowMs limit_log ip now requestLogs = (requestLogs', Reject r_log)
            \<longrightarrow> requestLogs' ip \<noteq> requestLogs ip)
     \<and> (slidingWindowCounterRateLimiter windowSize limit_counter ip now counters = (counters', Reject r_counter)
            \<longrightarrow> counters' ip \<noteq> counters ip)"
proof -
  from st have sorted: "sorted nows" and le: "last nows \<le> now"
    using ne by (auto simp: sorted_append)
  from tokenBucket_run_invariant [where tokenBuckets = tokenBuckets and ip = ip, OF cap rate sorted ne fresh] run
  obtain bucket where b: "tokenBuckets_before ip = Some bucket"
    and inv: "0 \<le> tokens bucket" "tokens bucket \<le> bucketCapacity" "lastRefill bucket \<le> last nows"
    by auto
  from inv(3) le have lr: "lastRefill bucket \<le> now" by simp
  from leakyBucket_run_invariant [where buckets = buckets and ip = ip, OF qcap lrate sorted ne qfresh] qrun
  obtain qbucket where qb: "buckets_before ip = Some qbucket"
    and qinv: "0 \<le> queue qbucket" "queue qbucket \<le> queueCapacity" "lastLeakTime qbucket \<le> last nows"
    by auto
  from qinv(3) le have ll: "lastLeakTime qbucket \<le> now" by simp
  have c1: "fixedWindowRateLimiter windowTime maxRequests ip now ipRequestCounts = (ipRequestCounts', Reject r_fixed)
            \<longrightarrow> ipRequestCounts' = ipRequestCounts"
    by (auto dest: fixedWindow_reject_unchanged)
  have c2: "tokenBucketRateLimiter bucketCapacity refillRate ip now tokenBuckets_before = (tokenBuckets_after, Reject r_token)
            \<longrightarrow> tokenBuckets_after = tokenBuckets_before
                \<and> (\<exists>bucket. tokenBuckets_before ip = Some bucket \<and> tokensToAdd refillRate now bucket = 0)"
    using tokenBucket_reject_unchanged [where tokenBuckets = tokenBuckets_before and ip = ip,
        OF cap rate b inv(1,2) lr] b
    by blast
  have c3: "leakyBucketRateLimiter queueCapacity leakRate ip now buckets_before = (buckets_after, Reject r_leaky)
            \<longrightarrow> buckets_after = buckets_before
                \<and> (\<exists>bucket. buckets_before ip = Some bucket \<and> leaked leakRate now bucket = 0)"
    using leakyBucket_reject_unchanged [where buckets = buckets_before and ip = ip,
        OF qcap lrate qb qinv(1,2) ll] qb
    by blast
  have c4: "slidingWindowRateLimiter windowMs limit_log ip now requestLogs = (requestLogs', Reject r_log)
            \<longrightarrow> requestLogs' ip \<noteq> requestLogs ip"
    using slidingLog_reject_mutates [OF win] by blast
  have c5: "slidingWindowCounterRateLimiter windowSize limit_counter ip now counters = (counters', Reject r_counter)
            \<longrightarrow> counters' ip \<noteq> counters ip"
    using slidingCounter_reject_mutates by blast
  from c1 c2 c3 c4 c5 show ?thesis by (intro conjI)
qed

theorem rejection_atomicity_witness:
  "fixedWindowRateLimiter 1000 2 ''10.0.0.7'' 500 [''10.0.0.7'' \<mapsto> \<lparr>count = 2, windowStart = 0\<rparr>] =
     ([''10.0.0.7'' \<mapsto> \<lparr>count = 2, windowStart = 0\<rparr>], Reject 1)
   \<and> serve (tokenBucketRateLimiter 2 1 ''10.0.0.7'') [0, 0] Map.empty =
       ([''10.0.0.7'' \<mapsto> \<lparr>tokens = 0, lastRefill = 0\<rparr>], [Next, Next])
   \<and> tokenBucketRateLimiter 2 1 ''10.0.0.7'' 500 [''10.0.0.7'' \<mapsto> \<lparr>tokens = 0, lastRefill = 0\<rparr>] =
       ([''10.0.0.7'' \<mapsto> \<lparr>tokens = 0, lastRefill = 0\<rparr>], Reject 1)
   \<and> serve (leakyBucketRateLimiter 2 1000 ''10.0.0.7'') [0, 0] Map.empty =
       ([''10.0.0.7'' \<mapsto> \<lparr>lastLeakTime = 0, queue = 2\<rparr>], [Next, Next])
   \<and> leakyBucketRateLimiter 2 1000 ''10.0.0.7'' 500 [''10.0.0.7'' \<mapsto> \<lparr>lastLeakTime = 0, queue = 2\<rparr>] =
       ([''10.0.0.7'' \<mapsto> \<lparr>lastLeakTime = 0, queue = 2\<rparr>], Reject 1)
   \<and> slidingWindowRateLimiter 1000 2 ''10.0.0.7'' 500 [''10.0.0.7'' \<mapsto> [0, 0]] =
       ([''10.0.0.7'' \<mapsto> [0, 0, 500]], Reject 1)
   \<and> slidingWindowCounterRateLimiter 1000 2 ''10.0.0.7'' 500
         [''10.0.0.7'' \<mapsto> \<lparr>current = \<lparr>timestamp = 0, count_w = 4\<rparr>,
                               previous = \<lparr>timestamp = - 1000, count_w = 0\<rparr>\<rparr>] =
       ([''10.0.0.7'' \<mapsto> \<lparr>current = \<lparr>timestamp = 0, count_w = 5\<rparr>,
                               previous = \<lparr>timestamp = - 1000, count_w = 0\<rparr>\<rparr>], Reject 1)
   \<and> [''10.0.0.7'' \<mapsto> [0, 0, 500::int]] ''10.0.0.7'' \<noteq> [''10.0.0.7'' \<mapsto> [0, 0]] ''10.0.0.7''"
proof -
  let ?ip = "''10.0.0.7''"
  let ?tb = "[?ip \<mapsto> \<lparr>tokens = 0, lastRefill = 0\<rparr>]"
  let ?lb = "[?ip \<mapsto> \<lparr>lastLeakTime = 0, queue = 2\<rparr>]"
  let ?fw = "[?ip \<mapsto> \<lparr>count = 2, windowStart = 0\<rparr>]"
  have fw: "fixedWindowRateLimiter 1000 2 ?ip 500 ?fw = (?fw, Reject 1)"
    by (simp add: fixedWindowRateLimiter_def ceil_seconds_div)
  have run: "serve (tokenBucketRateLimiter 2 1 ?ip) [0, 0] Map.empty = (?tb, [Next, Next])"
    by (simp add: tokenBucketRateLimiter_def refill_def tokensToAdd_rate_one)
  have tb: "tokenBucketRateLimiter 2 1 ?ip 500 ?tb = (?tb, Reject 1)"
    by (simp add: tokenBucketRateLimiter_def refill_def tokensToAdd_rate_one)
  have qrun: "serve (leakyBucketRateLimiter 2 1000 ?ip) [0, 0] Map.empty = (?lb, [Next, Next])"
    by (simp add: leakyBucketRateLimiter_def leak_def leaked_def)
  have lb: "leakyBucketRateLimiter 2 1000 ?ip 500 ?lb = (?lb, Reject 1)"
    by (simp add: leakyBucketRateLimiter_def leak_def leaked_def ceil_seconds_div)
  have sl: "slidingWindowRateLimiter 1000 2 ?ip 500 [?ip \<mapsto> [0, 0]] = ([?ip \<mapsto> [0, 0, 500]], Reject 1)"
    by (simp add: slidingWindowRateLimiter_def ceil_seconds_div)
  have sc: "slidingWindowCounterRateLimiter 1000 2 ?ip 500
         [?ip \<mapsto> \<lparr>current = \<lparr>timestamp = 0, count_w = 4\<rparr>, previous = \<lparr>timestamp = - 1000, count_w = 0\<rparr>\<rparr>] =
       ([?ip \<mapsto> \<lparr>current = \<lparr>timestamp = 0, count_w = 5\<rparr>, previous = \<lparr>timestamp = - 1000, count_w = 0\<rparr>\<rparr>],
        Reject 1)"
    by (simp add: slidingWindowCounterRateLimiter_def shiftWindows_def windowStartOf_def weightOf_def
        totalCount_def ceil_seconds_div toDouble_zero toDouble_half toDouble_five_halves)
  have "sorted ([0, 0] @ [500::int])" and "[0, 0::int] \<noteq> []"
    and "(1::int) \<le> 2" and "(0::real) \<le> 1" and "Map.empty ?ip = (None :: tb_bucket option)"
    and "(0::int) < 1000" and "Map.empty ?ip = (None :: lb_bucket option)" and "(0::int) \<le> 1000"
    by simp_all
  from rejection_atomicity [where tokenBuckets = Map.empty and buckets = Map.empty and ip = ?ip
      and requestLogs = "[?ip \<mapsto> [0, 0]]" and requestLogs' = "[?ip \<mapsto> [0, 0, 500]]" and r_log = 1
      and limit_log = 2,
      OF this(1-2) this(3-5) run this(3) this(6-7) qrun this(8)] sl
  have "[?ip \<mapsto> [0, 0, 500::int]] ?ip \<noteq> [?ip \<mapsto> [0, 0]] ?ip"
    by blast
  with fw run tb qrun lb sl sc show ?thesis by (intro conjI)
qed

section \<open>Sliding window counter: the stored pair and the estimate\<close>

lemma slidingCounter_first:
  "buckets ip = None \<Longrightarrow>
   slidingWindowCounterRateLimiter windowSize maxRequests ip now buckets =
     (buckets(ip \<mapsto>
        \<lparr>current = \<lparr>timestamp = windowStartOf windowSize now, count_w = 1\<rparr>,
         previous = \<lparr>timestamp = windowStartOf windowSize now - windowSize, count_w = 0\<rparr>\<rparr>), Next)"
  by (simp add: slidingWindowCounterRateLimiter_def)

lemma slidingCounter_current_timestamp:
  "\<exists>entry. fst (slidingWindowCounterRateLimiter windowSize maxRequests ip now buckets) ip = Some entry
      \<and> timestamp (current entry) = windowStartOf windowSize now"
proof (cases "buckets ip")
  case None
  then show ?thesis by (simp add: slidingCounter_first)
next
  case (Some entry)
  then show ?thesis by (simp add: slidingCounter_later shiftWindows_def)
qed

lemma slidingCounter_roll_copies_current:
  assumes "buckets ip = Some entry"
    and "timestamp (current entry) \<noteq> windowStartOf windowSize now"
  shows "\<exists>entry'. fst (slidingWindowCounterRateLimiter windowSize maxRequests ip now buckets) ip = Some entry'
      \<and> previous entry' = current entry
      \<and> current entry' = \<lparr>timestamp = windowStartOf windowSize now, count_w = 1\<rparr>"
  using assms by (simp add: slidingCounter_later shiftWindows_def)

text \<open>
  Where the rounding decides: with the source's constants, an address that sent 20
  requests in the window starting at 0 and 19 in the one starting at 60000 sends one more
  at 60012. The exact weighted sum is 20, which is not above the limit; the sum of the
  rounded terms is \<open>20 + 2^-48\<close>, and the request is rejected.
\<close>

lemma slidingCounter_rounding_at_limit:
  "slidingWindowCounterRateLimiter slidingCounter_windowSize slidingCounter_maxRequests ip 60012
     [ip \<mapsto> \<lparr>current = \<lparr>timestamp = 60000, count_w = 19\<rparr>,
                 previous = \<lparr>timestamp = 0, count_w = 20\<rparr>\<rparr>] =
     ([ip \<mapsto> \<lparr>current = \<lparr>timestamp = 60000, count_w = 20\<rparr>,
                  previous = \<lparr>timestamp = 0, count_w = 20\<rparr>\<rparr>], Reject 60)
   \<and> estimateAt slidingCounter_windowSize 60012
        \<lparr>current = \<lparr>timestamp = 60000, count_w = 19\<rparr>, previous = \<lparr>timestamp = 0, count_w = 20\<rparr>\<rparr>
       = 20 + 1 / 2 ^ 48
   \<and> (20::real) * (1 - 12 / 60000) + 20 * (12 / 60000) = 20"
proof -
  let ?w = "7378697629483821 * 2 powi (- 65) :: real"
  let ?a = "9005397814890044 * 2 powi (- 53) :: real"
  let ?b = "5628373634306278 * 2 powi (- 48) :: real"
  let ?c = "4611686018427388 * 2 powi (- 60) :: real"
  let ?t = "5629499534213121 * 2 powi (- 48) :: real"
  have w: "toDouble (12 / 60000) = ?w"
    using toDouble_eq [where x = "12 / 60000" and e = "- 13" and n = 7378697629483821]
    by (simp add: power_int_minus roundTiesToEven_def Let_def)
  have a: "toDouble (1 - ?w) = ?a"
    using toDouble_eq [where x = "1 - ?w" and e = "- 1" and n = 9005397814890044]
    by (simp add: power_int_minus roundTiesToEven_def Let_def)
  have b: "toDouble (20 * ?a) = ?b"
    using toDouble_eq [where x = "20 * ?a" and e = 4 and n = 5628373634306278]
    by (simp add: power_int_minus roundTiesToEven_def Let_def)
  have c: "toDouble (20 * ?w) = ?c"
    using toDouble_eq [where x = "20 * ?w" and e = "- 8" and n = 4611686018427388]
    by (simp add: power_int_minus roundTiesToEven_def Let_def)
  have t: "toDouble (?b + ?c) = ?t"
    using toDouble_eq [where x = "?b + ?c" and e = 4 and n = 5629499534213121]
    by (simp add: power_int_minus roundTiesToEven_def Let_def)
  have weight: "weightOf slidingCounter_windowSize 60012 = ?w"
    using w by (simp add: weightOf_def windowStartOf_def slidingCounter_windowSize_def)
  let ?e = "\<lparr>current = \<lparr>timestamp = 60000, count_w = 19\<rparr>, previous = \<lparr>timestamp = 0, count_w = 20\<rparr>\<rparr>"
  let ?e' = "\<lparr>current = \<lparr>timestamp = 60000, count_w = 20\<rparr>, previous = \<lparr>timestamp = 0, count_w = 20\<rparr>\<rparr>"
  have shift: "shiftWindows slidingCounter_windowSize 60012 ?e = ?e'"
    by (simp add: shiftWindows_def windowStartOf_def slidingCounter_windowSize_def)
  have "estimateAt slidingCounter_windowSize 60012 ?e = totalCount ?e' ?w"
    by (simp only: estimateAt_def shift weight)
  also have "\<dots> = toDouble (toDouble (real_of_int 20 * toDouble (1 - ?w)) + toDouble (real_of_int 20 * ?w))"
    by (simp only: totalCount_def swc_entry.select_convs window.select_convs)
  also have "\<dots> = ?t"
    by (simp only: of_int_numeral a b c t)
  finally have est: "estimateAt slidingCounter_windowSize 60012 ?e = ?t" .
  have val: "?t = 20 + 1 / 2 ^ 48" by (simp add: power_int_minus)
  have total: "totalCount ?e' ?w = ?t"
    using est by (simp only: estimateAt_def shift weight)
  have gt: "totalCount ?e' ?w > real_of_int slidingCounter_maxRequests"
    unfolding total by (simp add: slidingCounter_maxRequests_def power_int_minus)
  have cs: "ceil_seconds slidingCounter_windowSize = 60"
    by (simp add: ceil_seconds_div slidingCounter_windowSize_def)
  have lookup: "[ip \<mapsto> ?e] ip = Some ?e" by simp
  have call: "slidingWindowCounterRateLimiter slidingCounter_windowSize slidingCounter_maxRequests ip 60012
               [ip \<mapsto> ?e] = ([ip \<mapsto> ?e'], Reject 60)"
    by (simp only: slidingCounter_later [where buckets = "[ip \<mapsto> ?e]", OF lookup]
        shift weight gt if_True cs fun_upd_upd)
  have exact: "(20::real) * (1 - 12 / 60000) + 20 * (12 / 60000) = 20" by simp
  from call est val exact show ?thesis by (simp only: simp_thms)
qed

text \<open>The same request as the last of a run from an empty store; the 39 before it pass.\<close>

lemma slidingCounter_rounding_run:
  "snd (serve (slidingWindowCounterRateLimiter slidingCounter_windowSize slidingCounter_maxRequests ip)
     (replicate 20 0 @ replicate 19 60000 @ [60012]) Map.empty) =
   replicate 39 Next @ [Reject 60]"
proof -
  let ?f = "slidingWindowCounterRateLimiter slidingCounter_windowSize slidingCounter_maxRequests ip"
  let ?e = "\<lparr>current = \<lparr>timestamp = 60000, count_w = 19\<rparr>, previous = \<lparr>timestamp = 0, count_w = 20\<rparr>\<rparr>"
  have run: "serve ?f (replicate 20 0 @ replicate 19 60000) Map.empty = ([ip \<mapsto> ?e], replicate 39 Next)"
    by (simp add: slidingWindowCounterRateLimiter_def shiftWindows_def windowStartOf_def weightOf_def
        totalCount_def slidingCounter_windowSize_def slidingCounter_maxRequests_def
        toDouble_zero toDouble_one toDouble_numeral numeral_eq_Suc)
  have last: "?f 60012 [ip \<mapsto> ?e] =
     ([ip \<mapsto> \<lparr>current = \<lparr>timestamp = 60000, count_w = 20\<rparr>,
                  previous = \<lparr>timestamp = 0, count_w = 20\<rparr>\<rparr>], Reject 60)"
    using slidingCounter_rounding_at_limit [of ip] by (simp only: simp_thms)
  have "serve ?f ((replicate 20 0 @ replicate 19 60000) @ [60012]) Map.empty =
        ([ip \<mapsto> \<lparr>current = \<lparr>timestamp = 60000, count_w = 20\<rparr>,
                  previous = \<lparr>timestamp = 0, count_w = 20\<rparr>\<rparr>], replicate 39 Next @ [Reject 60])"
    by (simp only: serve_snoc run last prod.case)
  then show ?thesis by (simp only: append_assoc snd_conv)
qed

text \<open>
  Claim C4 on the source's constants (\<open>windowSize = 60000\<close>): requests at 0 ms and at
  120000 ms, two windows later. The stored \<open>current\<close> starts at 120000 as claimed, but
  \<open>previous\<close> is the copied old \<open>current\<close>, window 0 with count 1, where the window before
  the current one starts at 60000 and saw no request.
\<close>

theorem slidingCounter_stale_previous:
  "serve (slidingWindowCounterRateLimiter slidingCounter_windowSize slidingCounter_maxRequests ''10.0.0.7'')
     [0, 120000] Map.empty =
     ([''10.0.0.7'' \<mapsto> \<lparr>current = \<lparr>timestamp = 120000, count_w = 1\<rparr>,
                           previous = \<lparr>timestamp = 0, count_w = 1\<rparr>\<rparr>], [Next, Next])
   \<and> windowStartOf slidingCounter_windowSize 120000 - slidingCounter_windowSize = 60000"
  by (simp add: slidingWindowCounterRateLimiter_def shiftWindows_def windowStartOf_def weightOf_def
      totalCount_def slidingCounter_windowSize_def slidingCounter_maxRequests_def
      toDouble_zero toDouble_one)

text \<open>
  Claim C5 as it is written fails: requests at 0, 0 and 30000 ms stay in the window
  starting at 0, no call rolls, and the estimate computed by the second call is 2, the
  one computed by the third is 3/2.
\<close>

theorem slidingCounter_estimate_drop_counterexample:
  "serve (slidingWindowCounterRateLimiter slidingCounter_windowSize slidingCounter_maxRequests ''10.0.0.7'')
     [0, 0, 30000] Map.empty =
     ([''10.0.0.7'' \<mapsto> \<lparr>current = \<lparr>timestamp = 0, count_w = 3\<rparr>,
                           previous = \<lparr>timestamp = - 60000, count_w = 0\<rparr>\<rparr>], [Next, Next, Next])
   \<and> estimateAt slidingCounter_windowSize 0
        \<lparr>current = \<lparr>timestamp = 0, count_w = 1\<rparr>, previous = \<lparr>timestamp = - 60000, count_w = 0\<rparr>\<rparr> = 2
   \<and> estimateAt slidingCounter_windowSize 30000
        \<lparr>current = \<lparr>timestamp = 0, count_w = 2\<rparr>, previous = \<lparr>timestamp = - 60000, count_w = 0\<rparr>\<rparr> = 3 / 2
   \<and> windowStartOf slidingCounter_windowSize 0 = 0
   \<and> windowStartOf slidingCounter_windowSize 30000 = 0"
  by (simp add: slidingWindowCounterRateLimiter_def shiftWindows_def windowStartOf_def weightOf_def
      totalCount_def estimateAt_def slidingCounter_windowSize_def slidingCounter_maxRequests_def
      toDouble_zero toDouble_one toDouble_half toDouble_two toDouble_three_halves)

lemma weightOf_range:
  assumes "0 < windowSize"
  shows "0 \<le> weightOf windowSize now" and "weightOf windowSize now \<le> 1"
proof -
  let ?q = "real_of_int (now - windowStartOf windowSize now) / real_of_int windowSize"
  have "now - now div windowSize * windowSize = now mod windowSize"
    by (simp add: minus_div_mult_eq_mod)
  then have q: "?q = real_of_int (now mod windowSize) / real_of_int windowSize"
    by (simp add: windowStartOf_def)
  have "now mod windowSize \<le> windowSize"
    using pos_mod_bound [OF assms, of now] by linarith
  with assms have "0 \<le> ?q" and "?q \<le> 1" unfolding q by simp_all
  then have "toDouble 0 \<le> toDouble ?q" and "toDouble ?q \<le> toDouble 1"
    by (simp_all only: toDouble_mono)
  then show "0 \<le> weightOf windowSize now" and "weightOf windowSize now \<le> 1"
    by (simp_all add: weightOf_def toDouble_zero toDouble_one)
qed

lemma weightOf_quotient:
  "weightOf windowSize now = toDouble (real_of_int (now mod windowSize) / real_of_int windowSize)"
proof -
  have "now - now div windowSize * windowSize = now mod windowSize"
    by (simp add: minus_div_mult_eq_mod)
  then show ?thesis by (simp add: weightOf_def windowStartOf_def)
qed

lemma weightOf_below_one:
  assumes "0 < windowSize"
  shows "1 / real_of_int windowSize - 1 / 2 ^ 53 \<le> 1 - weightOf windowSize now"
proof -
  let ?W = "real_of_int windowSize"
  let ?q = "real_of_int (now mod windowSize) / ?W"
  from assms have W: "0 < ?W" by simp
  have "now mod windowSize \<le> windowSize - 1"
    using pos_mod_bound [OF assms, of now] by linarith
  then have "real_of_int (now mod windowSize) \<le> ?W - 1" by linarith
  then have "?q \<le> (?W - 1) / ?W" using W by (simp add: divide_right_mono)
  also have "\<dots> = 1 - 1 / ?W" using W by (simp add: field_simps)
  finally have q1: "?q \<le> 1 - 1 / ?W" .
  from assms have q0: "0 \<le> ?q" by simp
  from W have "0 < 1 / ?W" by simp
  with q1 have "?q \<le> 1" by linarith
  from toDouble_unit_interval(3) [OF q0 this] have "toDouble ?q \<le> ?q + 1 / 2 ^ 53" by linarith
  with q1 show ?thesis by (simp add: weightOf_quotient)
qed

lemma weightOf_mono_in_bucket:
  assumes "0 < windowSize" and "t1 \<le> t2"
    and "windowStartOf windowSize t1 = windowStartOf windowSize t2"
  shows "weightOf windowSize t1 \<le> weightOf windowSize t2"
proof -
  from assms(2,3) have "t1 - windowStartOf windowSize t1 \<le> t2 - windowStartOf windowSize t2"
    by simp
  with assms(1) have "real_of_int (t1 - windowStartOf windowSize t1) / real_of_int windowSize
        \<le> real_of_int (t2 - windowStartOf windowSize t2) / real_of_int windowSize"
    by (simp add: divide_right_mono)
  then show ?thesis unfolding weightOf_def Let_def by (rule toDouble_mono)
qed

text \<open>
  The weighted sums of two successive calls in one window, before their last rounding:
  the second is not below the first when the counts are small against \<open>2^52 / windowSize\<close>
  and the current count is at most the previous one.
\<close>

lemma weighted_sum_grows:
  fixes k p W :: int and w1 w2 :: real
  assumes W: "0 < W" and k: "0 \<le> k" and kp: "k \<le> p"
    and small: "(2 * k + p + 2) * W \<le> 2 ^ 52"
    and w1: "0 \<le> w1" and w12: "w1 \<le> w2" and w2: "w2 \<le> 1"
    and gap: "1 / real_of_int W - 1 / 2 ^ 53 \<le> 1 - w2"
  shows "toDouble (real_of_int k * toDouble (1 - w1)) + toDouble (real_of_int p * w1)
         \<le> toDouble (real_of_int (k + 1) * toDouble (1 - w2)) + toDouble (real_of_int p * w2)"
proof -
  define \<eta> :: real where "\<eta> = 1 / 2 ^ 53"
  define K P where "K = real_of_int k" and "P = real_of_int p"
  define a1 a2 where "a1 = toDouble (1 - w1)" and "a2 = toDouble (1 - w2)"
  define B1 B2 C1 C2 where "B1 = toDouble (K * a1)" and "B2 = toDouble ((K + 1) * a2)"
    and "C1 = toDouble (P * w1)" and "C2 = toDouble (P * w2)"
  from k kp have K: "0 \<le> K" and KP: "K \<le> P" and P: "0 \<le> P" by (simp_all add: K_def P_def)
  have eta: "0 < \<eta>" by (simp add: \<eta>_def)
  from w1 w12 w2 have r1: "0 \<le> 1 - w1" "1 - w1 \<le> 1" and r2: "0 \<le> 1 - w2" "1 - w2 \<le> 1"
    and w1': "w1 \<le> 1" and w2': "0 \<le> w2"
    by simp_all
  have a1: "0 \<le> a1" "a1 \<le> 1" "\<bar>a1 - (1 - w1)\<bar> \<le> \<eta>"
    unfolding a1_def \<eta>_def by (rule toDouble_unit_interval [OF r1])+
  have a2: "0 \<le> a2" "a2 \<le> 1" "\<bar>a2 - (1 - w2)\<bar> \<le> \<eta>"
    unfolding a2_def \<eta>_def by (rule toDouble_unit_interval [OF r2])+
  define x1 x2 y1 y2 u1 u2 ke pe cr where "x1 = K * a1" and "x2 = (K + 1) * a2"
    and "y1 = P * w1" and "y2 = P * w2" and "u1 = K * (1 - w1)" and "u2 = (K + 1) * (1 - w2)"
    and "ke = K * \<eta>" and "pe = P * \<eta>" and "cr = (P - K) * (w2 - w1)"
  have eB1: "\<bar>B1 - x1\<bar> \<le> ke"
    using toDouble_error_count [OF k a1(1,2)] by (simp add: B1_def K_def \<eta>_def x1_def ke_def)
  from k have k1: "0 \<le> k + 1" by simp
  have eB2: "\<bar>B2 - x2\<bar> \<le> ke + \<eta>"
    using toDouble_error_count [OF k1 a2(1,2)]
    by (simp add: B2_def K_def \<eta>_def x2_def ke_def algebra_simps add_divide_distrib)
  from k kp have p0: "0 \<le> p" by simp
  have eC1: "\<bar>C1 - y1\<bar> \<le> pe"
    using toDouble_error_count [OF p0 w1 w1'] by (simp add: C1_def P_def \<eta>_def y1_def pe_def)
  have eC2: "\<bar>C2 - y2\<bar> \<le> pe"
    using toDouble_error_count [OF p0 w2' w2] by (simp add: C2_def P_def \<eta>_def y2_def pe_def)
  have "K * a1 \<le> K * ((1 - w1) + \<eta>)"
    using a1(3) K by (intro mult_left_mono) linarith+
  then have m1: "x1 \<le> u1 + ke" by (simp add: x1_def u1_def ke_def algebra_simps)
  have "(K + 1) * ((1 - w2) - \<eta>) \<le> (K + 1) * a2"
    using a2(3) K by (intro mult_left_mono) linarith+
  then have m2: "u2 - ke - \<eta> \<le> x2" by (simp add: x2_def u2_def ke_def algebra_simps)
  have cross: "0 \<le> cr"
    unfolding cr_def using KP w12 by (intro mult_nonneg_nonneg) simp_all
  have ident: "u2 - u1 + y2 - y1 = (1 - w2) + cr"
    by (simp add: u1_def u2_def y1_def y2_def cr_def algebra_simps)
  have lower: "(1 - w2) - (4 * ke + 2 * pe + 2 * \<eta>) \<le> B2 + C2 - (B1 + C1)"
    using eB1 eB2 eC1 eC2 m1 m2 cross ident by linarith
  have room: "4 * ke + 2 * pe + 2 * \<eta> \<le> 1 - w2"
  proof -
    from small have "real_of_int ((2 * k + p + 2) * W) \<le> real_of_int (2 ^ 52)"
      by (simp only: of_int_le_iff)
    then have "(2 * K + P + 2) * real_of_int W \<le> 2 ^ 52" by (simp add: K_def P_def)
    with W have "2 * K + P + 2 \<le> 2 ^ 52 / real_of_int W" by (simp add: pos_le_divide_eq)
    then have "(2 * K + P + 2) / 2 ^ 52 \<le> 1 / real_of_int W" by (simp add: field_simps)
    moreover have "(2 * K + P + 2) / 2 ^ 52 = 4 * ke + 2 * pe + 4 * \<eta>"
      by (simp add: \<eta>_def ke_def pe_def field_simps)
    ultimately have "4 * ke + 2 * pe + 4 * \<eta> \<le> 1 / real_of_int W" by simp
    with gap eta show ?thesis unfolding \<eta>_def by linarith
  qed
  from lower room have "B1 + C1 \<le> B2 + C2" by linarith
  then show ?thesis
    by (simp add: B1_def B2_def C1_def C2_def a1_def a2_def K_def P_def)
qed

lemma shiftWindows_timestamp:
  "timestamp (current (shiftWindows windowSize now entry)) = windowStartOf windowSize now"
  by (simp add: shiftWindows_def)

text \<open>A call in the window of the stored \<open>current\<close> only counts.\<close>

lemma shiftWindows_same_window:
  assumes "timestamp (current entry) = windowStartOf windowSize now"
  shows "current (shiftWindows windowSize now entry) =
           (current entry)\<lparr>count_w := count_w (current entry) + 1\<rparr>"
    and "previous (shiftWindows windowSize now entry) = previous entry"
  using assms by (simp_all add: shiftWindows_def)

lemma totalCount_mono_count:
  assumes "weight \<le> 1"
    and "count_w (current entry) \<le> count_w (current entry')"
    and "previous entry' = previous entry"
  shows "totalCount entry weight \<le> totalCount entry' weight"
proof -
  let ?a = "toDouble (1 - weight)"
  let ?c = "toDouble (real_of_int (count_w (previous entry)) * weight)"
  from assms(1) have "0 \<le> 1 - weight" by simp
  then have "toDouble 0 \<le> ?a" by (rule toDouble_mono)
  then have a: "0 \<le> ?a" by (simp add: toDouble_zero)
  from assms(2) have "real_of_int (count_w (current entry)) \<le> real_of_int (count_w (current entry'))"
    by simp
  then have "real_of_int (count_w (current entry)) * ?a \<le> real_of_int (count_w (current entry')) * ?a"
    using a by (rule mult_right_mono)
  then have "toDouble (real_of_int (count_w (current entry)) * ?a)
             \<le> toDouble (real_of_int (count_w (current entry')) * ?a)"
    by (rule toDouble_mono)
  then have "toDouble (real_of_int (count_w (current entry)) * ?a) + ?c
             \<le> toDouble (real_of_int (count_w (current entry')) * ?a) + ?c"
    by simp
  then have "toDouble (toDouble (real_of_int (count_w (current entry)) * ?a) + ?c)
             \<le> toDouble (toDouble (real_of_int (count_w (current entry')) * ?a) + ?c)"
    by (rule toDouble_mono)
  then show ?thesis by (simp add: totalCount_def assms(3))
qed

lemma toDouble_quarter: "toDouble (1 / 4) = 1 / 4"
  by (rule toDouble_exact [where e = "- 2" and n = "2 ^ 52"]) (simp_all add: power_int_minus)

lemma toDouble_three_quarters: "toDouble (3 / 4) = 3 / 4"
  by (rule toDouble_exact [where e = "- 1" and n = "3 * 2 ^ 51"]) (simp_all add: power_int_minus)

lemma toDouble_nine_quarters: "toDouble (9 / 4) = 9 / 4"
  by (rule toDouble_exact [where e = 1 and n = "9 * 2 ^ 49"]) (simp_all add: power_int_minus)

lemma toDouble_seventeen_quarters: "toDouble (17 / 4) = 17 / 4"
  by (rule toDouble_exact [where e = 2 and n = "17 * 2 ^ 48"]) (simp_all add: power_int_minus)

text \<open>
  Claim C5, amended. A call at \<open>t1\<close> for a stored entry compares
  \<open>estimateAt windowSize t1 entry\<close>, the weighted sum in double arithmetic, with the limit
  and stores the shifted entry, whether the call rolls to a new window or not. The next
  call at \<open>t2 \<ge> t1\<close> in the same window does not roll: it adds one to \<open>current.count\<close> and
  compares the estimate of the stored entry at \<open>t2\<close>. That estimate is not below the first
  one when both calls read the same clock value, and also when the \<open>current.count\<close> stored
  by the first call is at most \<open>previous.count\<close> and the counts are small enough for the
  rounding not to decide (\<open>(2 * current.count + previous.count + 2) * windowSize \<le> 2^52\<close>).
  (With \<open>current.count\<close> above \<open>previous.count\<close> the estimate can drop as the clock advances
  inside a window, without any roll, as the evaluation above shows.)
\<close>

theorem slidingCounter_estimate_within_bucket:
  assumes pos: "0 < windowSize" and stored: "buckets ip = Some entry"
    and le: "t1 \<le> t2" and same: "windowStartOf windowSize t1 = windowStartOf windowSize t2"
  shows "slidingWindowCounterRateLimiter windowSize maxRequests ip t1 buckets =
           (buckets(ip \<mapsto> shiftWindows windowSize t1 entry),
            if estimateAt windowSize t1 entry > real_of_int maxRequests
            then Reject (ceil_seconds windowSize) else Next)
       \<and> slidingWindowCounterRateLimiter windowSize maxRequests ip t2
             (buckets(ip \<mapsto> shiftWindows windowSize t1 entry)) =
           (buckets(ip \<mapsto> shiftWindows windowSize t2 (shiftWindows windowSize t1 entry)),
            if estimateAt windowSize t2 (shiftWindows windowSize t1 entry) > real_of_int maxRequests
            then Reject (ceil_seconds windowSize) else Next)
       \<and> current (shiftWindows windowSize t2 (shiftWindows windowSize t1 entry)) =
           (current (shiftWindows windowSize t1 entry))
             \<lparr>count_w := count_w (current (shiftWindows windowSize t1 entry)) + 1\<rparr>
       \<and> previous (shiftWindows windowSize t2 (shiftWindows windowSize t1 entry)) =
           previous (shiftWindows windowSize t1 entry)
       \<and> (t1 = t2
            \<or> 0 \<le> count_w (current (shiftWindows windowSize t1 entry))
              \<and> count_w (current (shiftWindows windowSize t1 entry))
                  \<le> count_w (previous (shiftWindows windowSize t1 entry))
              \<and> (2 * count_w (current (shiftWindows windowSize t1 entry))
                   + count_w (previous (shiftWindows windowSize t1 entry)) + 2) * windowSize \<le> 2 ^ 52
            \<longrightarrow> estimateAt windowSize t1 entry
                \<le> estimateAt windowSize t2 (shiftWindows windowSize t1 entry))"
proof -
  let ?e1 = "shiftWindows windowSize t1 entry"
  let ?e2 = "shiftWindows windowSize t2 ?e1"
  let ?k = "count_w (current ?e1)"
  let ?p = "count_w (previous ?e1)"
  let ?w1 = "weightOf windowSize t1"
  let ?w2 = "weightOf windowSize t2"
  from stored have first: "slidingWindowCounterRateLimiter windowSize maxRequests ip t1 buckets =
           (buckets(ip \<mapsto> ?e1),
            if estimateAt windowSize t1 entry > real_of_int maxRequests
            then Reject (ceil_seconds windowSize) else Next)"
    by (simp add: slidingCounter_later estimateAt_def)
  have "(buckets(ip \<mapsto> ?e1)) ip = Some ?e1" by simp
  then have "slidingWindowCounterRateLimiter windowSize maxRequests ip t2 (buckets(ip \<mapsto> ?e1)) =
           ((buckets(ip \<mapsto> ?e1))(ip \<mapsto> ?e2),
            if totalCount ?e2 ?w2 > real_of_int maxRequests
            then Reject (ceil_seconds windowSize) else Next)"
    by (rule slidingCounter_later)
  then have second: "slidingWindowCounterRateLimiter windowSize maxRequests ip t2 (buckets(ip \<mapsto> ?e1)) =
           (buckets(ip \<mapsto> ?e2),
            if estimateAt windowSize t2 ?e1 > real_of_int maxRequests
            then Reject (ceil_seconds windowSize) else Next)"
    by (simp add: estimateAt_def)
  have in_window: "timestamp (current ?e1) = windowStartOf windowSize t2"
    using same by (simp add: shiftWindows_timestamp)
  have cur: "current ?e2 = (current ?e1)\<lparr>count_w := ?k + 1\<rparr>"
    and prev: "previous ?e2 = previous ?e1"
    by (rule shiftWindows_same_window [OF in_window])+
  have k2: "count_w (current ?e2) = ?k + 1" by (simp add: cur)
  have est1: "estimateAt windowSize t1 entry =
      toDouble (toDouble (real_of_int ?k * toDouble (1 - ?w1)) + toDouble (real_of_int ?p * ?w1))"
    by (simp add: estimateAt_def totalCount_def)
  have est2: "estimateAt windowSize t2 ?e1 =
      toDouble (toDouble (real_of_int (?k + 1) * toDouble (1 - ?w2)) + toDouble (real_of_int ?p * ?w2))"
    by (simp only: estimateAt_def totalCount_def k2 prev)
  have mono: "t1 = t2 \<or> 0 \<le> ?k \<and> ?k \<le> ?p \<and> (2 * ?k + ?p + 2) * windowSize \<le> 2 ^ 52
              \<longrightarrow> estimateAt windowSize t1 entry \<le> estimateAt windowSize t2 ?e1"
  proof
    assume "t1 = t2 \<or> 0 \<le> ?k \<and> ?k \<le> ?p \<and> (2 * ?k + ?p + 2) * windowSize \<le> 2 ^ 52"
    then show "estimateAt windowSize t1 entry \<le> estimateAt windowSize t2 ?e1"
    proof
      assume eq: "t1 = t2"
      have "count_w (current ?e1) \<le> count_w (current ?e2)" by (simp add: k2)
      with weightOf_range(2) [OF pos]
      have "totalCount ?e1 ?w1 \<le> totalCount ?e2 ?w1"
        by (rule totalCount_mono_count) (rule prev)
      then show ?thesis by (simp add: estimateAt_def eq)
    next
      assume small: "0 \<le> ?k \<and> ?k \<le> ?p \<and> (2 * ?k + ?p + 2) * windowSize \<le> 2 ^ 52"
      have "toDouble (real_of_int ?k * toDouble (1 - ?w1)) + toDouble (real_of_int ?p * ?w1)
            \<le> toDouble (real_of_int (?k + 1) * toDouble (1 - ?w2)) + toDouble (real_of_int ?p * ?w2)"
        using pos small [THEN conjunct1] small [THEN conjunct2, THEN conjunct1]
          small [THEN conjunct2, THEN conjunct2]
          weightOf_range(1) [OF pos] weightOf_mono_in_bucket [OF pos le same]
          weightOf_range(2) [OF pos] weightOf_below_one [OF pos]
        by (rule weighted_sum_grows)
      then show ?thesis unfolding est1 est2 by (rule toDouble_mono)
    qed
  qed
  from first second cur prev mono show ?thesis by (intro conjI)
qed

text \<open>
  The theorem at a call that rolls and the next call at the same clock reading (estimates
  1 and 2), and at calls a quarter and three quarters into a window with \<open>current.count\<close>
  3 below \<open>previous.count\<close> 8 (estimates 17/4 and 7).
\<close>

theorem slidingCounter_estimate_within_bucket_witness:
  "shiftWindows slidingCounter_windowSize 60000
     \<lparr>current = \<lparr>timestamp = 0, count_w = 5\<rparr>, previous = \<lparr>timestamp = - 60000, count_w = 3\<rparr>\<rparr> =
     \<lparr>current = \<lparr>timestamp = 60000, count_w = 1\<rparr>, previous = \<lparr>timestamp = 0, count_w = 5\<rparr>\<rparr>
   \<and> estimateAt slidingCounter_windowSize 60000
        \<lparr>current = \<lparr>timestamp = 0, count_w = 5\<rparr>, previous = \<lparr>timestamp = - 60000, count_w = 3\<rparr>\<rparr> = 1
   \<and> estimateAt slidingCounter_windowSize 60000
        \<lparr>current = \<lparr>timestamp = 60000, count_w = 1\<rparr>, previous = \<lparr>timestamp = 0, count_w = 5\<rparr>\<rparr> = 2
   \<and> estimateAt slidingCounter_windowSize 60000
        \<lparr>current = \<lparr>timestamp = 0, count_w = 5\<rparr>, previous = \<lparr>timestamp = - 60000, count_w = 3\<rparr>\<rparr>
       \<le> estimateAt slidingCounter_windowSize 60000
            \<lparr>current = \<lparr>timestamp = 60000, count_w = 1\<rparr>, previous = \<lparr>timestamp = 0, count_w = 5\<rparr>\<rparr>
   \<and> shiftWindows slidingCounter_windowSize 15000
     \<lparr>current = \<lparr>timestamp = 0, count_w = 2\<rparr>, previous = \<lparr>timestamp = - 60000, count_w = 8\<rparr>\<rparr> =
     \<lparr>current = \<lparr>timestamp = 0, count_w = 3\<rparr>, previous = \<lparr>timestamp = - 60000, count_w = 8\<rparr>\<rparr>
   \<and> estimateAt slidingCounter_windowSize 15000
        \<lparr>current = \<lparr>timestamp = 0, count_w = 2\<rparr>, previous = \<lparr>timestamp = - 60000, count_w = 8\<rparr>\<rparr> = 17 / 4
   \<and> estimateAt slidingCounter_windowSize 45000
        \<lparr>current = \<lparr>timestamp = 0, count_w = 3\<rparr>, previous = \<lparr>timestamp = - 60000, count_w = 8\<rparr>\<rparr> = 7
   \<and> estimateAt slidingCounter_windowSize 15000
        \<lparr>current = \<lparr>timestamp = 0, count_w = 2\<rparr>, previous = \<lparr>timestamp = - 60000, count_w = 8\<rparr>\<rparr>
       \<le> estimateAt slidingCounter_windowSize 45000
            \<lparr>current = \<lparr>timestamp = 0, count_w = 3\<rparr>, previous = \<lparr>timestamp = - 60000, count_w = 8\<rparr>\<rparr>"
proof -
  let ?W = "slidingCounter_windowSize"
  let ?ip = "''10.0.0.7''"
  let ?e = "\<lparr>current = \<lparr>timestamp = 0, count_w = 5\<rparr>, previous = \<lparr>timestamp = - 60000, count_w = 3\<rparr>\<rparr>"
  let ?e' = "\<lparr>current = \<lparr>timestamp = 60000, count_w = 1\<rparr>, previous = \<lparr>timestamp = 0, count_w = 5\<rparr>\<rparr>"
  let ?d = "\<lparr>current = \<lparr>timestamp = 0, count_w = 2\<rparr>, previous = \<lparr>timestamp = - 60000, count_w = 8\<rparr>\<rparr>"
  let ?d' = "\<lparr>current = \<lparr>timestamp = 0, count_w = 3\<rparr>, previous = \<lparr>timestamp = - 60000, count_w = 8\<rparr>\<rparr>"
  have pos: "0 < ?W" by (simp add: slidingCounter_windowSize_def)
  have roll: "shiftWindows ?W 60000 ?e = ?e'"
    by (simp add: shiftWindows_def windowStartOf_def slidingCounter_windowSize_def)
  have "[?ip \<mapsto> ?e] ?ip = Some ?e" and "(60000::int) \<le> 60000"
    and "windowStartOf ?W 60000 = windowStartOf ?W 60000"
    by simp_all
  from slidingCounter_estimate_within_bucket [where buckets = "[?ip \<mapsto> ?e]" and ip = ?ip
      and maxRequests = slidingCounter_maxRequests, OF pos this]
  have m1: "estimateAt ?W 60000 ?e \<le> estimateAt ?W 60000 ?e'"
    unfolding roll by blast
  have count: "shiftWindows ?W 15000 ?d = ?d'"
    by (simp add: shiftWindows_def windowStartOf_def slidingCounter_windowSize_def)
  have small: "0 \<le> count_w (current ?d') \<and> count_w (current ?d') \<le> count_w (previous ?d')
      \<and> (2 * count_w (current ?d') + count_w (previous ?d') + 2) * ?W \<le> 2 ^ 52"
    by (simp add: slidingCounter_windowSize_def)
  have "[?ip \<mapsto> ?d] ?ip = Some ?d" and "(15000::int) \<le> 45000"
    and "windowStartOf ?W 15000 = windowStartOf ?W 45000"
    by (simp_all add: windowStartOf_def slidingCounter_windowSize_def)
  from slidingCounter_estimate_within_bucket [where buckets = "[?ip \<mapsto> ?d]" and ip = ?ip
      and maxRequests = slidingCounter_maxRequests, OF pos this] small
  have m2: "estimateAt ?W 15000 ?d \<le> estimateAt ?W 45000 ?d'"
    unfolding count by blast
  have v1: "estimateAt ?W 60000 ?e = 1"
    by (simp add: estimateAt_def shiftWindows_def windowStartOf_def weightOf_def totalCount_def
        slidingCounter_windowSize_def toDouble_zero toDouble_one)
  have v2: "estimateAt ?W 60000 ?e' = 2"
    by (simp add: estimateAt_def shiftWindows_def windowStartOf_def weightOf_def totalCount_def
        slidingCounter_windowSize_def toDouble_zero toDouble_one toDouble_two)
  have v3: "estimateAt ?W 15000 ?d = 17 / 4"
    by (simp add: estimateAt_def shiftWindows_def windowStartOf_def weightOf_def totalCount_def
        slidingCounter_windowSize_def toDouble_quarter toDouble_three_quarters toDouble_nine_quarters
        toDouble_two toDouble_seventeen_quarters)
  have v4: "estimateAt ?W 45000 ?d' = 7"
    by (simp add: estimateAt_def shiftWindows_def windowStartOf_def weightOf_def totalCount_def
        slidingCounter_windowSize_def toDouble_quarter toDouble_three_quarters toDouble_one
        toDouble_numeral)
  from roll v1 v2 m1 count v3 v4 m2 show ?thesis by (intro conjI)
qed

text \<open>
  Claim C9. The throttle middleware never answers with a rejection and always leaves an
  entry for the address in the map. When the pruned timestamps number at least
  \<open>MAX_REQUESTS\<close> (and there is an oldest one) it stores the pruned list and schedules its
  callback after \<open>TIME_WINDOW - (currentTime - oldest)\<close> milliseconds. The callback, run at
  a clock reading \<open>now\<close> on the map as it is then, prunes the stored list again with \<open>now\<close>,
  appends \<open>now\<close>, stores the list and calls \<open>next()\<close>.
\<close>

theorem throttle_defers_never_rejects:
  "(\<forall>r. snd (throttleMiddleware MAX_REQUESTS TIME_WINDOW ip currentTime IPMap) \<noteq> Reject r)
   \<and> (\<exists>stored. fst (throttleMiddleware MAX_REQUESTS TIME_WINDOW ip currentTime IPMap) ip = Some stored)
   \<and> (\<forall>oldest rest.
         filter (\<lambda>ts. currentTime - ts < TIME_WINDOW) (case IPMap ip of None \<Rightarrow> [] | Some l \<Rightarrow> l)
           = oldest # rest
         \<and> MAX_REQUESTS \<le> int (length (oldest # rest))
         \<longrightarrow> throttleMiddleware MAX_REQUESTS TIME_WINDOW ip currentTime IPMap =
               (IPMap(ip \<mapsto> oldest # rest), Defer (Some (TIME_WINDOW - (currentTime - oldest)))))
   \<and> (\<forall>IPMap' stored now. IPMap' ip = Some stored
         \<longrightarrow> throttleCallback TIME_WINDOW ip now IPMap' =
               Inr (IPMap'(ip \<mapsto> filter (\<lambda>ts. now - ts < TIME_WINDOW) stored @ [now]), Next))"
proof (intro conjI allI impI)
  fix r
  show "snd (throttleMiddleware MAX_REQUESTS TIME_WINDOW ip currentTime IPMap) \<noteq> Reject r"
    by (simp add: throttleMiddleware_def Let_def)
next
  show "\<exists>stored. fst (throttleMiddleware MAX_REQUESTS TIME_WINDOW ip currentTime IPMap) ip = Some stored"
    by (simp add: throttleMiddleware_def Let_def)
next
  fix oldest rest
  assume "filter (\<lambda>ts. currentTime - ts < TIME_WINDOW) (case IPMap ip of None \<Rightarrow> [] | Some l \<Rightarrow> l)
           = oldest # rest
         \<and> MAX_REQUESTS \<le> int (length (oldest # rest))"
  then show "throttleMiddleware MAX_REQUESTS TIME_WINDOW ip currentTime IPMap =
               (IPMap(ip \<mapsto> oldest # rest), Defer (Some (TIME_WINDOW - (currentTime - oldest))))"
    by (simp add: throttleMiddleware_def Let_def)
next
  fix IPMap' :: "ip \<rightharpoonup> int list" and stored now
  assume "IPMap' ip = Some stored"
  then show "throttleCallback TIME_WINDOW ip now IPMap' =
               Inr (IPMap'(ip \<mapsto> filter (\<lambda>ts. now - ts < TIME_WINDOW) stored @ [now]), Next)"
    by (simp add: throttleCallback_def)
qed

theorem throttle_defers_never_rejects_witness:
  "throttleMiddleware throttle_MAX_REQUESTS throttle_TIME_WINDOW ''10.0.0.7'' 500
     [''10.0.0.7'' \<mapsto> [0, 100, 200, 300, 400]] =
     ([''10.0.0.7'' \<mapsto> [0, 100, 200, 300, 400]], Defer (Some 500))
   \<and> throttleCallback throttle_TIME_WINDOW ''10.0.0.7'' 1000 [''10.0.0.7'' \<mapsto> [0, 100, 200, 300, 400]] =
       Inr ([''10.0.0.7'' \<mapsto> [100, 200, 300, 400, 1000]], Next)"
proof -
  let ?ip = "''10.0.0.7''"
  let ?m = "[?ip \<mapsto> [0, 100, 200, 300, 400::int]]"
  note inst = throttle_defers_never_rejects [of throttle_MAX_REQUESTS throttle_TIME_WINDOW ?ip 500 ?m]
  have pruned: "filter (\<lambda>ts. 500 - ts < throttle_TIME_WINDOW) (case ?m ?ip of None \<Rightarrow> [] | Some l \<Rightarrow> l)
           = 0 # [100, 200, 300, 400]
         \<and> throttle_MAX_REQUESTS \<le> int (length (0 # [100, 200, 300, 400::int]))"
    by (simp add: throttle_TIME_WINDOW_def throttle_MAX_REQUESTS_def)
  from inst pruned
  have a: "throttleMiddleware throttle_MAX_REQUESTS throttle_TIME_WINDOW ?ip 500 ?m =
             (?m(?ip \<mapsto> 0 # [100, 200, 300, 400]), Defer (Some (throttle_TIME_WINDOW - (500 - 0))))"
    by blast
  have "?m ?ip = Some [0, 100, 200, 300, 400]" by simp
  with inst have b: "throttleCallback throttle_TIME_WINDOW ?ip 1000 ?m =
      Inr (?m(?ip \<mapsto> filter (\<lambda>ts. 1000 - ts < throttle_TIME_WINDOW) [0, 100, 200, 300, 400] @ [1000]), Next)"
    by blast
  from a b show ?thesis by (simp add: throttle_TIME_WINDOW_def)
qed

end
